theory Spec2Isabelle
  imports Complex_Main "HOL-Library.AList"
begin

section \<open>Greenlight MD: note graph, force layout and text buffer\<close>

text \<open>
  A Python \<open>str\<close> is modelled as \<open>string\<close>, one \<open>char\<close> per code point; code points
  above 255 are outside the type. A Python \<open>dict\<close> is an association list in insertion
  order (\<open>AList.update\<close> replaces the value of an existing key in place and appends a new
  key at the end, as assignment to a dict does). Python integers are \<open>int\<close>, Python floats
  are idealised as \<open>real\<close>. Exceptions are values of \<open>py_error\<close>, returned with \<open>Inl\<close>.
\<close>

datatype py_error =
    FileNotFoundError
  | PermissionError
  | UnicodeDecodeError
  | OSError
  | IndexError
  | ValueError

type_synonym graph = "(string \<times> string list) list"
type_synonym paths = "(string \<times> string) list"

subsection \<open>link\_utils.py: the link pattern\<close>

text \<open>
  \<open>link_pattern = re.compile(r"\[\[([^\]]+)\]\]")\<close>. A match at the head of a text is
  \<open>[[\<close>, then the longest run of characters other than \<open>]\<close> (the class also matches
  newlines; the run is greedy and what follows it is either the end or a \<open>]\<close>, so no
  shorter run can match), which must be non-empty, then \<open>]]\<close>. \<open>match_here\<close> returns the
  captured group and the text after the match.
\<close>

definition match_here :: "string \<Rightarrow> (string \<times> string) option" where
  "match_here s =
     (case s of
        c1 # c2 # rest \<Rightarrow>
          if c1 = CHR ''['' \<and> c2 = CHR ''[''
          then (let name = takeWhile (\<lambda>c. c \<noteq> CHR '']'') rest;
                    after = dropWhile (\<lambda>c. c \<noteq> CHR '']'') rest
                in if name \<noteq> [] \<and> take 2 after = '']]''
                   then Some (name, drop 2 after) else None)
          else None
      | _ \<Rightarrow> None)"

lemma length_dropWhile_le_string: "length (dropWhile P xs) \<le> length xs"
  by (induction xs) auto

lemma match_here_shorter:
  assumes "match_here s = Some (name, rest)"
  shows "length rest < length s"
proof -
  from assms obtain c1 c2 r where s: "s = c1 # c2 # r"
    and rest: "rest = drop 2 (dropWhile (\<lambda>c. c \<noteq> CHR '']'') r)"
    by (auto simp: match_here_def Let_def split: list.splits if_splits)
  have "length rest \<le> length (dropWhile (\<lambda>c. c \<noteq> CHR '']'') r)"
    by (simp add: rest)
  also have "\<dots> \<le> length r"
    by (rule length_dropWhile_le_string)
  finally show ?thesis
    by (simp add: s)
qed

text \<open>
  \<open>link_pattern.findall(text)\<close>: the captured names of all non-overlapping matches, found
  left to right; after a match the scan resumes at its end, otherwise one character on.
\<close>

function findall :: "string \<Rightarrow> string list" where
  "findall [] = []"
| "findall (c # cs) =
     (case match_here (c # cs) of
        Some (name, rest) \<Rightarrow> name # findall rest
      | None \<Rightarrow> findall cs)"
  by pat_completeness auto
termination
  by (relation "measure length") (auto dest: match_here_shorter)

subsection \<open>link\_utils.py: scanning the vault\<close>

text \<open>
  The file system as the program sees it: \<open>os_walk root\<close> is the sequence of
  \<open>(dirpath, filenames)\<close> that \<open>os.walk(root)\<close> yields, and \<open>file_content path\<close> is the
  outcome of opening the file at \<open>path\<close> for reading and decoding its content: the decoded
  characters, or the exception raised (\<open>FileNotFoundError\<close>, \<open>PermissionError\<close>,
  \<open>UnicodeDecodeError\<close>, another \<open>OSError\<close>).
\<close>

record filesystem =
  os_walk :: "string \<Rightarrow> (string \<times> string list) list"
  file_content :: "string \<Rightarrow> py_error + string"

text \<open>
  Both \<open>open\<close> calls of the program read in text mode with the default \<open>newline=None\<close>:
  \<open>f.read()\<close> returns the decoded content with every \<open>\r\n\<close> and every remaining \<open>\r\<close>
  translated to \<open>\n\<close>. The scan decodes as UTF-8 and the editor with the encoding of the
  locale; the model takes the two to agree.
\<close>

fun universal_newlines :: "string \<Rightarrow> string" where
  "universal_newlines [] = []"
| "universal_newlines [c] = (if c = CHR 0x0D then [CHR 0x0A] else [c])"
| "universal_newlines (c # d # cs) =
     (if c = CHR 0x0D \<and> d = CHR 0x0A then CHR 0x0A # universal_newlines cs
      else if c = CHR 0x0D then CHR 0x0A # universal_newlines (d # cs)
      else c # universal_newlines (d # cs))"

definition read_text :: "filesystem \<Rightarrow> string \<Rightarrow> py_error + string" where
  "read_text fs path =
     (case file_content fs path of
        Inl e \<Rightarrow> Inl e
      | Inr content \<Rightarrow> Inr (universal_newlines content))"

definition endswith :: "string \<Rightarrow> string \<Rightarrow> bool" where
  "endswith s suffix =
     (length suffix \<le> length s \<and> drop (length s - length suffix) s = suffix)"

definition os_path_join :: "string \<Rightarrow> string \<Rightarrow> string" where
  "os_path_join a b =
     (if b \<noteq> [] \<and> hd b = CHR ''/'' then b
      else if a = [] \<or> last a = CHR ''/'' then a @ b
      else a @ ''/'' @ b)"

definition extract_links_from_file :: "filesystem \<Rightarrow> string \<Rightarrow> py_error + string list" where
  "extract_links_from_file fs path =
     (case read_text fs path of
        Inl e \<Rightarrow> if e = FileNotFoundError then Inr [] else Inl e
      | Inr text \<Rightarrow> Inr (findall text))"

fun scan_files ::
  "filesystem \<Rightarrow> string \<Rightarrow> string list \<Rightarrow> graph \<times> paths \<Rightarrow> py_error + (graph \<times> paths)" where
  "scan_files fs dirpath [] gp = Inr gp"
| "scan_files fs dirpath (file # files) gp =
     (if endswith file ''.md''
      then (let name = take (length file - 3) file;
                path = os_path_join dirpath file
            in case extract_links_from_file fs path of
                 Inl e \<Rightarrow> Inl e
               | Inr links \<Rightarrow>
                   scan_files fs dirpath files
                     (AList.update name links (fst gp), AList.update name path (snd gp)))
      else scan_files fs dirpath files gp)"

fun scan_dirs ::
  "filesystem \<Rightarrow> (string \<times> string list) list \<Rightarrow> graph \<times> paths \<Rightarrow> py_error + (graph \<times> paths)" where
  "scan_dirs fs [] gp = Inr gp"
| "scan_dirs fs ((dirpath, files) # rest) gp =
     (case scan_files fs dirpath files gp of
        Inl e \<Rightarrow> Inl e
      | Inr gp' \<Rightarrow> scan_dirs fs rest gp')"

definition build_note_graph :: "filesystem \<Rightarrow> string \<Rightarrow> py_error + (graph \<times> paths)" where
  "build_note_graph fs root_dir = scan_dirs fs (os_walk fs root_dir) ([], [])"

subsection \<open>link\_utils.py: incoming links\<close>

fun add_targets :: "string \<Rightarrow> string list \<Rightarrow> graph \<Rightarrow> graph" where
  "add_targets src [] incoming = incoming"
| "add_targets src (tgt # targets) incoming =
     add_targets src targets
       (if tgt \<in> set (map fst incoming)
        then AList.map_entry tgt (\<lambda>l. l @ [src]) incoming
        else incoming)"

fun add_sources :: "graph \<Rightarrow> graph \<Rightarrow> graph" where
  "add_sources [] incoming = incoming"
| "add_sources ((src, targets) # rest) incoming =
     add_sources rest (add_targets src targets incoming)"

definition build_incoming_links :: "graph \<Rightarrow> graph" where
  "build_incoming_links graph = add_sources graph (map (\<lambda>(note, _). (note, [])) graph)"

text \<open>
  The notes of a vault in the order the scan visits them, each with its name and path:
  the \<open>.md\<close> files of every directory that \<open>os.walk\<close> yields. It is used to state
  properties of the scan.
\<close>

definition dir_notes :: "string \<Rightarrow> string list \<Rightarrow> (string \<times> string) list" where
  "dir_notes dirpath files =
     map (\<lambda>file. (take (length file - 3) file, os_path_join dirpath file))
       (filter (\<lambda>file. endswith file ''.md'') files)"

definition note_files :: "filesystem \<Rightarrow> string \<Rightarrow> (string \<times> string) list" where
  "note_files fs root_dir =
     concat (map (\<lambda>(dirpath, files). dir_notes dirpath files) (os_walk fs root_dir))"

text \<open>
  The two nested loops of \<open>build_note_graph\<close> written as one loop over the notes in visiting
  order; \<open>build_note_graph_record\<close> below proves that the scan computes exactly this.
\<close>

fun record_notes ::
  "filesystem \<Rightarrow> (string \<times> string) list \<Rightarrow> graph \<times> paths \<Rightarrow> py_error + (graph \<times> paths)" where
  "record_notes fs [] gp = Inr gp"
| "record_notes fs ((name, path) # rest) gp =
     (case extract_links_from_file fs path of
        Inl e \<Rightarrow> Inl e
      | Inr links \<Rightarrow>
          record_notes fs rest
            (AList.update name links (fst gp), AList.update name path (snd gp)))"


text \<open>
  Two example vaults. In \<open>example_vault\<close> the note \<open>a\<close> links to \<open>b\<close> and \<open>c\<close>, and the file
  of note \<open>b\<close> has vanished between listing and read. In \<open>locked_vault\<close> the only note cannot
  be read for lack of permission, in \<open>undecodable_vault\<close> its bytes are not valid UTF-8.
\<close>

definition example_vault :: filesystem where
  "example_vault =
     \<lparr>os_walk = (\<lambda>_. [(''v'', [''a.md'', ''x.txt'']), (''v/sub'', [''b.md''])]),
      file_content = (\<lambda>p. if p = ''v/a.md'' then Inr ''see [[b]] and [[c]]''
                           else Inl FileNotFoundError)\<rparr>"

definition locked_vault :: filesystem where
  "locked_vault =
     \<lparr>os_walk = (\<lambda>_. [(''v'', [''a.md''])]),
      file_content = (\<lambda>p. Inl PermissionError)\<rparr>"

definition undecodable_vault :: filesystem where
  "undecodable_vault =
     \<lparr>os_walk = (\<lambda>_. [(''v'', [''a.md''])]),
      file_content = (\<lambda>p. Inl UnicodeDecodeError)\<rparr>"

subsection \<open>editor.py: Python sequence operations\<close>

text \<open>
  Indexing and slicing with Python's integer indices. A slice bound is clipped to the
  sequence and a negative one counts from the end; an index outside
  \<open>[-len, len)\<close> raises \<open>IndexError\<close>.
\<close>

definition and_then :: "py_error + 'a \<Rightarrow> ('a \<Rightarrow> py_error + 'b) \<Rightarrow> py_error + 'b" where
  "and_then r f = (case r of Inl e \<Rightarrow> Inl e | Inr v \<Rightarrow> f v)"

definition slice_bound :: "nat \<Rightarrow> int \<Rightarrow> nat" where
  "slice_bound n i = (if i < 0 then nat (max 0 (int n + i)) else min n (nat i))"

definition py_prefix :: "'a list \<Rightarrow> int \<Rightarrow> 'a list" where
  \<comment> \<open>\<open>s[:i]\<close>\<close>
  "py_prefix s i = take (slice_bound (length s) i) s"

definition py_suffix :: "'a list \<Rightarrow> int \<Rightarrow> 'a list" where
  \<comment> \<open>\<open>s[i:]\<close>\<close>
  "py_suffix s i = drop (slice_bound (length s) i) s"

definition py_index :: "nat \<Rightarrow> int \<Rightarrow> py_error + nat" where
  "py_index n i =
     (if 0 \<le> i \<and> i < int n then Inr (nat i)
      else if - int n \<le> i \<and> i < 0 then Inr (nat (int n + i))
      else Inl IndexError)"

definition py_get :: "'a list \<Rightarrow> int \<Rightarrow> py_error + 'a" where
  \<comment> \<open>\<open>xs[i]\<close>\<close>
  "py_get xs i = and_then (py_index (length xs) i) (\<lambda>j. Inr (xs ! j))"

definition py_set :: "'a list \<Rightarrow> int \<Rightarrow> 'a \<Rightarrow> py_error + 'a list" where
  \<comment> \<open>\<open>xs[i] = v\<close>\<close>
  "py_set xs i v = and_then (py_index (length xs) i) (\<lambda>j. Inr (xs[j := v]))"

definition py_insert :: "'a list \<Rightarrow> int \<Rightarrow> 'a \<Rightarrow> 'a list" where
  \<comment> \<open>\<open>xs.insert(i, v)\<close>\<close>
  "py_insert xs i v = (let j = slice_bound (length xs) i in take j xs @ v # drop j xs)"

definition py_pop :: "'a list \<Rightarrow> int \<Rightarrow> py_error + 'a list" where
  \<comment> \<open>\<open>xs.pop(i)\<close>, the list that remains\<close>
  "py_pop xs i = and_then (py_index (length xs) i) (\<lambda>j. Inr (take j xs @ drop (Suc j) xs))"

subsection \<open>editor.py: loading and saving\<close>

text \<open>
  \<open>str.splitlines()\<close>: the text is cut at every line boundary, the boundary characters are
  dropped, \<open>\r\n\<close> counts as one boundary, and no empty last line is produced for a
  boundary at the very end. The boundaries that fit in a \<open>char\<close> are \<open>\n\<close>, \<open>\v\<close>, \<open>\f\<close>,
  \<open>\r\<close>, \<open>\x1c\<close>, \<open>\x1d\<close>, \<open>\x1e\<close> and \<open>\x85\<close> (Python also cuts at U+2028 and U+2029).
  \<open>splitlines_from cur s\<close> carries the characters of the line being read.
\<close>

definition is_line_boundary :: "char \<Rightarrow> bool" where
  "is_line_boundary c =
     (c = CHR 0x0A \<or> c = CHR 0x0B \<or> c = CHR 0x0C \<or> c = CHR 0x0D
      \<or> c = CHR 0x1C \<or> c = CHR 0x1D \<or> c = CHR 0x1E \<or> c = CHR 0x85)"

fun splitlines_from :: "string \<Rightarrow> string \<Rightarrow> string list" where
  "splitlines_from cur [] = (if cur = [] then [] else [cur])"
| "splitlines_from cur [c] =
     (if is_line_boundary c then cur # splitlines_from [] []
      else splitlines_from (cur @ [c]) [])"
| "splitlines_from cur (c # d # cs) =
     (if c = CHR 0x0D \<and> d = CHR 0x0A then cur # splitlines_from [] cs
      else if is_line_boundary c then cur # splitlines_from [] (d # cs)
      else splitlines_from (cur @ [c]) (d # cs))"

definition splitlines :: "string \<Rightarrow> string list" where
  "splitlines s = splitlines_from [] s"

fun str_join :: "string \<Rightarrow> string list \<Rightarrow> string" where
  \<comment> \<open>\<open>sep.join(xs)\<close>\<close>
  "str_join sep [] = []"
| "str_join sep [l] = l"
| "str_join sep (l # m # ls) = l @ sep @ str_join sep (m # ls)"

text \<open>
  The head of \<open>editing_screen\<close>: the buffer is the lines of the file, no lines when the file
  does not exist, and a single empty line when there are none. Any other exception of the
  read leaves the function.
\<close>

definition load_buffer :: "filesystem \<Rightarrow> string \<Rightarrow> py_error + string list" where
  "load_buffer fs file_path =
     and_then
       (case read_text fs file_path of
          Inl e \<Rightarrow> if e = FileNotFoundError then Inr [] else Inl e
        | Inr text \<Rightarrow> Inr (splitlines text))
       (\<lambda>buffer. Inr (if buffer = [] then [''''] else buffer))"

text \<open>
  The buffer that \<open>load_buffer\<close> builds for an existing file with the given decoded content
  (lemma \<open>load_buffer_content\<close>), and the text that the save branch writes for a buffer.
\<close>

definition load_from_text :: "string \<Rightarrow> string list" where
  "load_from_text content =
     (let buffer = splitlines (universal_newlines content)
      in if buffer = [] then [''''] else buffer)"

definition serialize :: "string list \<Rightarrow> string" where
  "serialize buffer = str_join [CHR 0x0A] buffer"

subsection \<open>editor.py: the editing loop\<close>

text \<open>
  The local variables of \<open>editing_screen\<close> that the key handling reads and writes. \<open>cursor_y\<close>
  and \<open>cursor_x\<close> are the source's \<open>y\<close> and \<open>x\<close>; \<open>written\<close> is the text last written to the
  file by the save branch, if any. Rendering, the clock behind the status bar and the nested
  session that a jump to a linked note opens are not part of the model.
\<close>

record editor =
  buffer :: "string list"
  cursor_y :: int
  cursor_x :: int
  offset :: int
  save_status :: bool
  written :: "string option"

definition open_editor :: "filesystem \<Rightarrow> string \<Rightarrow> string \<Rightarrow> py_error + editor" where
  "open_editor fs file_path vault_root =
     and_then (load_buffer fs file_path) (\<lambda>b.
     and_then (build_note_graph fs vault_root) (\<lambda>_.
       Inr \<lparr>buffer = b, cursor_y = 0, cursor_x = 0, offset = 0,
            save_status = True, written = None\<rparr>))"

definition KEY_DOWN :: int where "KEY_DOWN = 258"
definition KEY_UP :: int where "KEY_UP = 259"
definition KEY_LEFT :: int where "KEY_LEFT = 260"
definition KEY_RIGHT :: int where "KEY_RIGHT = 261"
definition KEY_BACKSPACE :: int where "KEY_BACKSPACE = 263"

definition key_save :: "py_error option \<Rightarrow> editor \<Rightarrow> py_error + editor" where
  \<comment> \<open>CTRL+S; \<open>write_error\<close> is the exception of opening and writing the file, if any\<close>
  "key_save write_error st =
     (case write_error of
        Some e \<Rightarrow> Inl e
      | None \<Rightarrow> Inr (st\<lparr>save_status := True, written := Some (serialize (buffer st))\<rparr>))"

definition key_enter :: "editor \<Rightarrow> py_error + editor" where
  "key_enter st =
     and_then (py_get (buffer st) (cursor_y st)) (\<lambda>current_line.
     and_then (py_set (buffer st) (cursor_y st) (py_prefix current_line (cursor_x st))) (\<lambda>b.
       Inr (st\<lparr>save_status := False,
               buffer := py_insert b (cursor_y st + 1) (py_suffix current_line (cursor_x st)),
               cursor_y := cursor_y st + 1,
               cursor_x := 0\<rparr>)))"

definition key_tab :: "editor \<Rightarrow> py_error + editor" where
  "key_tab st =
     and_then (py_get (buffer st) (cursor_y st)) (\<lambda>line.
     and_then (py_set (buffer st) (cursor_y st)
                 (py_prefix line (cursor_x st) @ ''    '' @ py_suffix line (cursor_x st))) (\<lambda>b.
       Inr (st\<lparr>save_status := False, buffer := b, cursor_x := cursor_x st + 4\<rparr>)))"

definition key_backspace :: "editor \<Rightarrow> py_error + editor" where
  "key_backspace st =
     (if cursor_x st > 0 then
        and_then (py_get (buffer st) (cursor_y st)) (\<lambda>line.
        and_then (py_set (buffer st) (cursor_y st)
                    (py_prefix line (cursor_x st - 1) @ py_suffix line (cursor_x st))) (\<lambda>b.
          Inr (st\<lparr>save_status := False, buffer := b, cursor_x := cursor_x st - 1\<rparr>)))
      else if cursor_y st > 0 then
        and_then (py_get (buffer st) (cursor_y st - 1)) (\<lambda>prev.
        and_then (py_get (buffer st) (cursor_y st)) (\<lambda>line.
        and_then (py_set (buffer st) (cursor_y st - 1) (prev @ line)) (\<lambda>b.
        and_then (py_pop b (cursor_y st)) (\<lambda>b'.
          Inr (st\<lparr>save_status := False, buffer := b',
                  cursor_y := cursor_y st - 1,
                  cursor_x := int (length prev)\<rparr>)))))
      else Inr (st\<lparr>save_status := False\<rparr>))"

definition key_left :: "editor \<Rightarrow> py_error + editor" where
  "key_left st =
     (if cursor_x st > 0 then Inr (st\<lparr>cursor_x := cursor_x st - 1\<rparr>)
      else if cursor_y st > 0 then
        and_then (py_get (buffer st) (cursor_y st - 1)) (\<lambda>line.
          Inr (st\<lparr>cursor_y := cursor_y st - 1, cursor_x := int (length line)\<rparr>))
      else Inr st)"

definition key_right :: "editor \<Rightarrow> py_error + editor" where
  "key_right st =
     and_then (py_get (buffer st) (cursor_y st)) (\<lambda>line.
       if cursor_x st < int (length line) then Inr (st\<lparr>cursor_x := cursor_x st + 1\<rparr>)
       else if cursor_y st < int (length (buffer st)) - 1 then
         Inr (st\<lparr>cursor_y := cursor_y st + 1, cursor_x := 0\<rparr>)
       else Inr st)"

definition key_up :: "editor \<Rightarrow> py_error + editor" where
  "key_up st =
     (if cursor_y st > 0 then
        and_then (py_get (buffer st) (cursor_y st - 1)) (\<lambda>line.
          Inr (st\<lparr>cursor_y := cursor_y st - 1,
                  cursor_x := min (cursor_x st) (int (length line))\<rparr>))
      else Inr (st\<lparr>cursor_x := 0\<rparr>))"

definition key_down :: "editor \<Rightarrow> py_error + editor" where
  "key_down st =
     (if cursor_y st < int (length (buffer st)) - 1 then
        and_then (py_get (buffer st) (cursor_y st + 1)) (\<lambda>line.
          Inr (st\<lparr>cursor_y := cursor_y st + 1,
                  cursor_x := min (cursor_x st) (int (length line))\<rparr>))
      else
        and_then (py_get (buffer st) (cursor_y st)) (\<lambda>line.
          Inr (st\<lparr>cursor_x := int (length line)\<rparr>)))"

definition key_char :: "int \<Rightarrow> editor \<Rightarrow> py_error + editor" where
  "key_char key st =
     and_then (py_get (buffer st) (cursor_y st)) (\<lambda>line.
     and_then (py_set (buffer st) (cursor_y st)
                 (py_prefix line (cursor_x st) @ [char_of key] @ py_suffix line (cursor_x st))) (\<lambda>b.
       Inr (st\<lparr>save_status := False, buffer := b, cursor_x := cursor_x st + 1\<rparr>)))"

text \<open>
  The \<open>if\<close>/\<open>elif\<close> chain on the key, from CTRL+S on. \<open>current_link\<close> tells whether the
  render pass found a link under the cursor; the jump it enables runs a nested session and
  leaves the variables of this one as they are.
\<close>

definition handle_key :: "int \<Rightarrow> bool \<Rightarrow> py_error option \<Rightarrow> editor \<Rightarrow> py_error + editor" where
  "handle_key key current_link write_error st =
     (if key = 19 then key_save write_error st
      else if key = 7 \<and> current_link then Inr st
      else if key = 10 \<or> key = 13 then key_enter st
      else if key = 9 then key_tab st
      else if key = KEY_BACKSPACE \<or> key = 127 \<or> key = 8 then key_backspace st
      else if key = KEY_LEFT then key_left st
      else if key = KEY_RIGHT then key_right st
      else if key = KEY_UP then key_up st
      else if key = KEY_DOWN then key_down st
      else if 32 \<le> key \<and> key \<le> 126 then key_char key st
      else Inr st)"

definition scroll_adjust :: "int \<Rightarrow> editor \<Rightarrow> editor" where
  "scroll_adjust height st =
     (if cursor_y st < offset st then st\<lparr>offset := cursor_y st\<rparr>
      else if cursor_y st \<ge> offset st + (height - 2)
        then st\<lparr>offset := cursor_y st - (height - 2)\<rparr>
      else st)"

text \<open>
  One pass of the \<open>while True\<close> loop after rendering, for a terminal of \<open>height\<close> rows and
  the key that \<open>getch\<close> returned: no key (\<open>-1\<close>) skips the rest of the pass, CTRL+Q leaves the
  loop (\<open>None\<close>), any other key is handled and the scroll offset adjusted.
\<close>

definition editor_step ::
  "int \<Rightarrow> int \<Rightarrow> bool \<Rightarrow> py_error option \<Rightarrow> editor \<Rightarrow> py_error + editor option" where
  "editor_step height key current_link write_error st =
     (if key = - 1 then Inr (Some st)
      else if key = 17 then Inr None
      else and_then (handle_key key current_link write_error st)
             (\<lambda>st'. Inr (Some (scroll_adjust height st'))))"

fun press_keys :: "int \<Rightarrow> int list \<Rightarrow> editor \<Rightarrow> py_error + editor option" where
  \<comment> \<open>a sequence of key presses, away from any link and with no write error\<close>
  "press_keys height [] st = Inr (Some st)"
| "press_keys height (key # keys) st =
     and_then (editor_step height key False None st)
       (\<lambda>r. case r of None \<Rightarrow> Inr None | Some st' \<Rightarrow> press_keys height keys st')"

definition cursor_ok :: "editor \<Rightarrow> bool" where
  "cursor_ok st =
     (buffer st \<noteq> []
      \<and> 0 \<le> cursor_y st \<and> cursor_y st < int (length (buffer st))
      \<and> 0 \<le> cursor_x st \<and> cursor_x st \<le> int (length (buffer st ! nat (cursor_y st))))"

definition invariant :: "editor \<Rightarrow> bool" where
  "invariant st = (cursor_ok st \<and> 0 \<le> offset st \<and> offset st \<le> cursor_y st)"

text \<open>
  \<open>keeps st r\<close>: the branch returned a state, with the cursor invariant and the scroll
  offset of \<open>st\<close>.
\<close>

definition keeps :: "editor \<Rightarrow> py_error + editor \<Rightarrow> bool" where
  "keeps st r = (\<exists>st'. r = Inr st' \<and> cursor_ok st' \<and> offset st' = offset st)"

text \<open>Example sessions: a new empty note, and two small buffers with the cursor placed.\<close>

definition new_note :: editor where
  "new_note = \<lparr>buffer = [[]], cursor_y = 0, cursor_x = 0, offset = 0,
                save_status = True, written = None\<rparr>"

definition hello_at :: "int \<Rightarrow> editor" where
  "hello_at col = \<lparr>buffer = [''hello''], cursor_y = 0, cursor_x = col, offset = 0,
                    save_status = True, written = None\<rparr>"

definition two_lines_at :: "int \<Rightarrow> int \<Rightarrow> editor" where
  "two_lines_at row col = \<lparr>buffer = [''ab'', ''c''], cursor_y = row, cursor_x = col,
                            offset = 0, save_status = True, written = None\<rparr>"



definition sample_text :: string where
  \<comment> \<open>two lines, each ended by \<open>\n\<close>\<close>
  "sample_text = ''see [[b]]'' @ [CHR 0x0A] @ ''and [[c d]]'' @ [CHR 0x0A]"

text \<open>
  The line boundaries of a text, in order: a \<open>\r\n\<close> pair is one boundary, every other
  boundary character is one on its own. \<open>weave lines seps\<close> puts boundaries back between
  lines, one after each line as long as there are any: the text of which \<open>lines\<close> are the
  pieces cut at \<open>seps\<close>.
\<close>

fun line_ends :: "string \<Rightarrow> string list" where
  "line_ends [] = []"
| "line_ends [c] = (if is_line_boundary c then [[c]] else [])"
| "line_ends (c # d # cs) =
     (if c = CHR 0x0D \<and> d = CHR 0x0A then [c, d] # line_ends cs
      else if is_line_boundary c then [c] # line_ends (d # cs)
      else line_ends (d # cs))"

fun weave :: "string list \<Rightarrow> string list \<Rightarrow> string" where
  "weave [] seps = concat seps"
| "weave (l # ls) [] = l @ concat ls"
| "weave (l # ls) (s # seps) = l @ s @ weave ls seps"

subsection \<open>graph.py: the force-directed layout\<close>

text \<open>
  \<open>positions\<close> is the dict of the source, note to \<open>[x, y]\<close>, in insertion order; \<open>disp\<close> holds
  the displacement of every note, \<open>(0, 0)\<close> at the start of a round. Floats are idealised as
  reals: rounding errors, overflow and NaN are outside the model. Every key that the source looks up in \<open>positions\<close> or \<open>disp\<close> is a key of the graph,
  so no \<open>KeyError\<close> can arise; \<open>position_of\<close> is total for that reason only.

  The random source is a sequence \<open>rnd\<close> of raw draws, one per call of \<open>random.randint\<close> in
  call order; \<open>randint a b r\<close> raises \<open>ValueError\<close> on an empty range, as the library does,
  and maps the draw into \<open>[a, b]\<close> otherwise, so that every value of the range is the result
  of some draw.
\<close>

type_synonym positions = "(string \<times> real \<times> real) list"
type_synonym displacements = "string \<Rightarrow> real \<times> real"

definition randint :: "int \<Rightarrow> int \<Rightarrow> int \<Rightarrow> py_error + int" where
  "randint a b r = (if b < a then Inl ValueError else Inr (a + r mod (b - a + 1)))"

definition py_sqrt :: "real \<Rightarrow> py_error + real" where
  \<comment> \<open>\<open>math.sqrt\<close>\<close>
  "py_sqrt v = (if v < 0 then Inl ValueError else Inr (sqrt v))"

definition py_int :: "real \<Rightarrow> int" where
  \<comment> \<open>\<open>int(v)\<close> of a float: truncation toward zero\<close>
  "py_int v = (if 0 \<le> v then \<lfloor>v\<rfloor> else \<lceil>v\<rceil>)"

definition position_of :: "positions \<Rightarrow> string \<Rightarrow> real \<times> real" where
  "position_of positions v = (case map_of positions v of Some p \<Rightarrow> p | None \<Rightarrow> (0, 0))"

fun initial_positions ::
  "(nat \<Rightarrow> int) \<Rightarrow> nat \<Rightarrow> int \<Rightarrow> int \<Rightarrow> string list \<Rightarrow> py_error + positions" where
  "initial_positions rnd i width height [] = Inr []"
| "initial_positions rnd i width height (note # rest) =
     and_then (randint 1 (width - 2) (rnd i)) (\<lambda>px.
     and_then (randint 1 (height - 3) (rnd (i + 1))) (\<lambda>py.
     and_then (initial_positions rnd (i + 2) width height rest) (\<lambda>ps.
       Inr ((note, (real_of_int px, real_of_int py)) # ps))))"

text \<open>
  Repulsion: the displacement that \<open>u\<close> adds to \<open>v\<close>. \<open>dx * dx + dy * dy\<close> is never negative
  and \<open>dist\<close> is at least \<open>0.01\<close>, so neither the square root nor the divisions can raise.
\<close>

definition repulsion :: "real \<Rightarrow> positions \<Rightarrow> string \<Rightarrow> string \<Rightarrow> real \<times> real" where
  "repulsion k positions v u =
     (let dx = fst (position_of positions v) - fst (position_of positions u);
          dy = snd (position_of positions v) - snd (position_of positions u);
          dist = sqrt (dx * dx + dy * dy) + 0.01;
          force = (if dist < 2.0 then 5.0 * (2.0 - dist) else 0.02 * (k * k) / dist)
      in ((dx / dist) * force, (dy / dist) * force))"

definition add_disp :: "displacements \<Rightarrow> string \<Rightarrow> real \<times> real \<Rightarrow> displacements" where
  "add_disp disp v d = disp (v := (fst (disp v) + fst d, snd (disp v) + snd d))"

definition sub_disp :: "displacements \<Rightarrow> string \<Rightarrow> real \<times> real \<Rightarrow> displacements" where
  "sub_disp disp v d = disp (v := (fst (disp v) - fst d, snd (disp v) - snd d))"

fun repel_node ::
  "real \<Rightarrow> positions \<Rightarrow> string \<Rightarrow> string list \<Rightarrow> displacements \<Rightarrow> displacements" where
  \<comment> \<open>the inner loop \<open>for u in graph\<close>\<close>
  "repel_node k positions v [] disp = disp"
| "repel_node k positions v (u # us) disp =
     repel_node k positions v us
       (if u \<noteq> v then add_disp disp v (repulsion k positions v u) else disp)"

fun repel_all ::
  "real \<Rightarrow> positions \<Rightarrow> string list \<Rightarrow> string list \<Rightarrow> displacements \<Rightarrow> displacements" where
  \<comment> \<open>the outer loop \<open>for v in graph\<close>; \<open>notes\<close> are all the keys of the graph\<close>
  "repel_all k positions notes [] disp = disp"
| "repel_all k positions notes (v # vs) disp =
     repel_all k positions notes vs (repel_node k positions v notes disp)"

text \<open>
  Attraction along the link from \<open>v\<close> to \<open>u\<close>. The division by \<open>k\<close> cannot raise: the loop
  runs for a non-empty graph only, for which \<open>randint\<close> has returned, so the width is at
  least 3, the height at least 4 and \<open>k\<close> positive.
\<close>

definition attraction :: "real \<Rightarrow> positions \<Rightarrow> string \<Rightarrow> string \<Rightarrow> real \<times> real" where
  "attraction k positions v u =
     (let dx = fst (position_of positions v) - fst (position_of positions u);
          dy = snd (position_of positions v) - snd (position_of positions u);
          dist = sqrt (dx * dx + dy * dy) + 0.01;
          force = 1.0 * (dist * dist) / k
      in ((dx / dist) * force, (dy / dist) * force))"

fun attract_node ::
  "real \<Rightarrow> positions \<Rightarrow> string list \<Rightarrow> string \<Rightarrow> string list \<Rightarrow> displacements
   \<Rightarrow> displacements" where
  \<comment> \<open>the inner loop \<open>for u in targets\<close>\<close>
  "attract_node k positions notes v [] disp = disp"
| "attract_node k positions notes v (u # us) disp =
     attract_node k positions notes v us
       (if u \<in> set notes
        then add_disp (sub_disp disp v (attraction k positions v u)) u
               (attraction k positions v u)
        else disp)"

fun attract_all ::
  "real \<Rightarrow> positions \<Rightarrow> string list \<Rightarrow> graph \<Rightarrow> displacements \<Rightarrow> displacements" where
  \<comment> \<open>the outer loop \<open>for v, targets in graph.items()\<close>\<close>
  "attract_all k positions notes [] disp = disp"
| "attract_all k positions notes ((v, targets) # rest) disp =
     attract_all k positions notes rest (attract_node k positions notes v targets disp)"

text \<open>
  The last loop of a round: a step of length one along the displacement of \<open>v\<close>, if it is
  not zero, then the clamp into the drawable region.
\<close>

definition move :: "int \<Rightarrow> int \<Rightarrow> real \<times> real \<Rightarrow> real \<times> real \<Rightarrow> real \<times> real" where
  "move width height d p =
     (let dist = sqrt (fst d * fst d + snd d * snd d);
          px = (if dist > 0 then fst p + fst d / dist else fst p);
          py = (if dist > 0 then snd p + snd d / dist else snd p)
      in (min (real_of_int (width - 2)) (max 1 px),
          min (real_of_int (height - 3)) (max 1 py)))"

fun apply_displacements ::
  "displacements \<Rightarrow> int \<Rightarrow> int \<Rightarrow> string list \<Rightarrow> positions \<Rightarrow> positions" where
  "apply_displacements disp width height [] positions = positions"
| "apply_displacements disp width height (v # vs) positions =
     apply_displacements disp width height vs
       (AList.map_entry v (move width height (disp v)) positions)"

definition layout_round :: "real \<Rightarrow> int \<Rightarrow> int \<Rightarrow> graph \<Rightarrow> positions \<Rightarrow> positions" where
  "layout_round k width height graph positions =
     (let notes = map fst graph;
          disp = repel_all k positions notes notes (\<lambda>note. (0, 0));
          disp = attract_all k positions notes graph disp
      in apply_displacements disp width height notes positions)"

fun layout_rounds ::
  "nat \<Rightarrow> real \<Rightarrow> int \<Rightarrow> int \<Rightarrow> graph \<Rightarrow> positions \<Rightarrow> positions" where
  \<comment> \<open>\<open>for _ in range(iterations)\<close>\<close>
  "layout_rounds 0 k width height graph positions = positions"
| "layout_rounds (Suc n) k width height graph positions =
     layout_rounds n k width height graph (layout_round k width height graph positions)"

text \<open>
  \<open>final_positions\<close> is \<open>force_layout\<close> up to its last line, \<open>force_layout\<close> converts the
  coordinates with \<open>int\<close>. A negative number of iterations runs no round.
\<close>

definition final_positions ::
  "(nat \<Rightarrow> int) \<Rightarrow> graph \<Rightarrow> int \<Rightarrow> int \<Rightarrow> int \<Rightarrow> py_error + positions" where
  "final_positions rnd graph width height iterations =
     and_then (initial_positions rnd 0 width height (map fst graph)) (\<lambda>positions.
     and_then (py_sqrt (real_of_int (width * height) / real (length graph + 1))) (\<lambda>k.
       Inr (layout_rounds (nat iterations) k width height graph positions)))"

definition force_layout ::
  "(nat \<Rightarrow> int) \<Rightarrow> graph \<Rightarrow> int \<Rightarrow> int \<Rightarrow> int
   \<Rightarrow> py_error + (string \<times> int \<times> int) list" where
  "force_layout rnd graph width height iterations =
     and_then (final_positions rnd graph width height iterations) (\<lambda>positions.
       Inr (map (\<lambda>(note, (px, py)). (note, (py_int px, py_int py))) positions))"

definition default_iterations :: int where
  "default_iterations = 200"

text \<open>The drawable region.\<close>

definition in_region :: "int \<Rightarrow> int \<Rightarrow> real \<times> real \<Rightarrow> bool" where
  "in_region width height p =
     (1 \<le> fst p \<and> fst p \<le> real_of_int (width - 2)
      \<and> 1 \<le> snd p \<and> snd p \<le> real_of_int (height - 3))"

text \<open>Two notes without links, and draws that place them at \<open>(3, 3)\<close> and \<open>(5, 5)\<close>.\<close>

definition two_notes :: graph where
  "two_notes = [(''a'', []), (''b'', [])]"

definition diagonal_draws :: "nat \<Rightarrow> int" where
  "diagonal_draws i = (if i < 2 then 2 else 4)"

definition linked_notes :: graph where
  \<comment> \<open>note \<open>A\<close> links to note \<open>B\<close>\<close>
  "linked_notes = [(''A'', [''B'']), (''B'', [])]"

definition diagonal_start :: positions where
  \<comment> \<open>the initial positions that \<open>diagonal_draws\<close> gives \<open>two_notes\<close> in a 10 by 10 region\<close>
  "diagonal_start = [(''a'', (3, 3)), (''b'', (5, 5))]"

section \<open>Incoming links\<close>

lemma map_fst_map_entry: "map fst (AList.map_entry k f al) = map fst al"
  by (induction al) auto

lemma add_targets_keys: "map fst (add_targets src tgts inc) = map fst inc"
  by (induction tgts arbitrary: inc) (auto simp: map_fst_map_entry)

lemma add_sources_keys: "map fst (add_sources g inc) = map fst inc"
  by (induction g arbitrary: inc) (auto simp: add_targets_keys)

lemma map_of_map_entry_app:
  "map_of (AList.map_entry k f al) k' = (if k' = k then map_option f (map_of al k) else map_of al k')"
  by (induction al) auto

lemma add_targets_mono:
  "map_of inc t = Some ss \<Longrightarrow> \<exists>ss'. map_of (add_targets src tgts inc) t = Some ss' \<and> set ss \<subseteq> set ss'"
proof (induction tgts arbitrary: inc ss)
  case Nil then show ?case by simp
next
  case (Cons a tgts)
  show ?case
  proof (cases "a \<in> set (map fst inc)")
    case False
    with Cons show ?thesis by simp
  next
    case True
    let ?inc = "AList.map_entry a (\<lambda>l. l @ [src]) inc"
    have "\<exists>s1. map_of ?inc t = Some s1 \<and> set ss \<subseteq> set s1"
      using Cons.prems by (auto simp: map_of_map_entry_app)
    then obtain s1 where s1: "map_of ?inc t = Some s1" "set ss \<subseteq> set s1" by blast
    from Cons.IH[OF s1(1)] s1(2) True show ?thesis by auto
  qed
qed

lemma add_targets_adds:
  assumes "t \<in> set tgts" "t \<in> set (map fst inc)"
  shows "\<exists>ss. map_of (add_targets src tgts inc) t = Some ss \<and> src \<in> set ss"
  using assms
proof (induction tgts arbitrary: inc)
  case Nil then show ?case by simp
next
  case (Cons a tgts)
  let ?inc = "if a \<in> set (map fst inc) then AList.map_entry a (\<lambda>l. l @ [src]) inc else inc"
  have keys: "map fst ?inc = map fst inc" by (simp add: map_fst_map_entry)
  show ?case
  proof (cases "a = t")
    case True
    from Cons.prems(2) obtain s0 where "map_of inc t = Some s0"
      by (metis map_of_eq_None_iff not_Some_eq set_map)
    then have "map_of ?inc t = Some (s0 @ [src])"
      using True Cons.prems(2) by (simp add: map_of_map_entry_app)
    moreover have "?inc = AList.map_entry a (\<lambda>l. l @ [src]) inc"
      using True Cons.prems(2) by simp
    ultimately have "map_of (AList.map_entry a (\<lambda>l. l @ [src]) inc) t = Some (s0 @ [src])"
      by simp
    from add_targets_mono[OF this, of src tgts] True Cons.prems(2) show ?thesis by auto
  next
    case False
    with Cons.prems have "t \<in> set tgts" by simp
    moreover have "t \<in> set (map fst ?inc)" using Cons.prems(2) keys by metis
    ultimately show ?thesis using Cons.IH[of ?inc] by simp
  qed
qed

lemma add_sources_mono:
  "map_of inc t = Some ss \<Longrightarrow> \<exists>ss'. map_of (add_sources g inc) t = Some ss' \<and> set ss \<subseteq> set ss'"
proof (induction g arbitrary: inc ss)
  case Nil then show ?case by simp
next
  case (Cons a g)
  obtain s ts where a: "a = (s, ts)" by (cases a)
  from add_targets_mono[OF Cons.prems, of s ts] obtain s1 where
    s1: "map_of (add_targets s ts inc) t = Some s1" "set ss \<subseteq> set s1" by blast
  from Cons.IH[OF s1(1)] s1(2) show ?case by (auto simp: a)
qed

lemma add_sources_adds:
  assumes "(s, ts) \<in> set g" "t \<in> set ts" "t \<in> set (map fst inc)"
  shows "\<exists>ss. map_of (add_sources g inc) t = Some ss \<and> s \<in> set ss"
  using assms
proof (induction g arbitrary: inc)
  case Nil then show ?case by simp
next
  case (Cons a g)
  obtain s' ts' where a: "a = (s', ts')" by (cases a)
  show ?case
  proof (cases "a = (s, ts)")
    case True
    from add_targets_adds[OF Cons.prems(2,3), of s] obtain s1 where
      s1: "map_of (add_targets s ts inc) t = Some s1" "s \<in> set s1" by blast
    from add_sources_mono[OF s1(1), of g] s1(2) show ?thesis using True by auto
  next
    case False
    with Cons.prems(1) have "(s, ts) \<in> set g" by simp
    moreover have "t \<in> set (map fst (add_targets s' ts' inc))"
      using Cons.prems(3) by (simp only: add_targets_keys)
    ultimately show ?thesis using Cons.IH[of "add_targets s' ts' inc"] Cons.prems(2)
      by (simp add: a)
  qed
qed

lemma build_incoming_links_keys: "map fst (build_incoming_links graph) = map fst graph"
  by (simp add: build_incoming_links_def add_sources_keys case_prod_unfold comp_def)

text \<open>
  Claim C6. For every graph, \<open>build_incoming_links\<close> keeps exactly the keys of the graph
  (every note is a key of \<open>incoming\<close>, possibly with an empty list, and a name that is not a
  note never becomes a key), and for every source \<open>s\<close> and every target \<open>t\<close> in
  \<open>graph[s]\<close> that is itself a key of the graph, \<open>s\<close> is a member of \<open>incoming[t]\<close>.
\<close>

theorem build_incoming_links_consistent:
  "map fst (build_incoming_links graph) = map fst graph
   \<and> (map_of graph s = Some ts \<and> t \<in> set ts \<and> t \<in> set (map fst graph)
       \<longrightarrow> (\<exists>ss. map_of (build_incoming_links graph) t = Some ss \<and> s \<in> set ss))"
proof (intro conjI impI)
  assume h: "map_of graph s = Some ts \<and> t \<in> set ts \<and> t \<in> set (map fst graph)"
  then have in_g: "(s, ts) \<in> set graph" by (auto dest: map_of_SomeD)
  have "t \<in> set (map fst (map (\<lambda>(note, _). (note, [])) graph))"
    using h by (simp add: case_prod_unfold comp_def)
  from add_sources_adds[OF in_g _ this] h
  show "\<exists>ss. map_of (build_incoming_links graph) t = Some ss \<and> s \<in> set ss"
    by (simp add: build_incoming_links_def)
next
  show "map fst (build_incoming_links graph) = map fst graph"
    by (rule build_incoming_links_keys)
qed

theorem build_incoming_links_consistent_witness:
  "map_of [(''A'', [''B'']), (''B'', [])] ''A'' = Some [''B''] \<and> ''B'' \<in> set [''B'']
   \<and> ''B'' \<in> set (map fst [(''A'', [''B'']), (''B'', [])])
   \<and> (\<exists>ss. map_of (build_incoming_links [(''A'', [''B'']), (''B'', [])]) ''B'' = Some ss \<and> ''A'' \<in> set ss)
   \<and> map fst (build_incoming_links [(''A'', [''B'']), (''B'', [])]) = map fst [(''A'', [''B'']), (''B'', [])]"
  using build_incoming_links_consistent [of "[(''A'', [''B'']), (''B'', [])]" "''A''" "[''B'']" "''B''"]
  by (simp add: build_incoming_links_def)


section \<open>Scanning the vault\<close>

lemma record_notes_append:
  "record_notes fs (xs @ ys) gp =
     (case record_notes fs xs gp of Inl e \<Rightarrow> Inl e | Inr gp' \<Rightarrow> record_notes fs ys gp')"
  by (induction xs arbitrary: gp) (auto split: sum.splits)

lemma scan_files_record:
  "scan_files fs dirpath files gp = record_notes fs (dir_notes dirpath files) gp"
  by (induction files arbitrary: gp) (auto simp: dir_notes_def Let_def split: sum.splits)

lemma scan_dirs_record:
  "scan_dirs fs walk gp =
     record_notes fs (concat (map (\<lambda>(dirpath, files). dir_notes dirpath files) walk)) gp"
  by (induction walk arbitrary: gp)
     (auto simp: record_notes_append scan_files_record split: sum.splits)

lemma build_note_graph_record:
  "build_note_graph fs root_dir = record_notes fs (note_files fs root_dir) ([], [])"
  by (simp add: build_note_graph_def note_files_def scan_dirs_record)

lemma record_notes_same_keys:
  "record_notes fs ns gp = Inr gp' \<Longrightarrow> map fst (fst gp) = map fst (snd gp)
   \<Longrightarrow> map fst (fst gp') = map fst (snd gp')"
proof (induction ns arbitrary: gp)
  case Nil then show ?case by simp
next
  case (Cons a ns)
  obtain name path where a: "a = (name, path)" by (cases a)
  from Cons.prems(1) obtain links where
    l: "extract_links_from_file fs path = Inr links"
    and r: "record_notes fs ns (AList.update name links (fst gp), AList.update name path (snd gp)) = Inr gp'"
    by (auto simp: a split: sum.splits)
  show ?case
    by (rule Cons.IH[OF r]) (simp add: update_keys Cons.prems(2))
qed

text \<open>
  Claim C10. For every root directory, the two mappings returned by \<open>build_note_graph\<close> have
  the same keys, in the same order: a note name is a key of \<open>graph\<close> if and only if it is a
  key of \<open>paths\<close>, so every note of the graph has a file path to jump to.
\<close>

theorem build_note_graph_same_keys:
  assumes "build_note_graph fs root_dir = Inr (graph, paths)"
  shows "map fst graph = map fst paths \<and> dom (map_of graph) = dom (map_of paths)"
proof -
  have keys: "map fst graph = map fst paths"
    using record_notes_same_keys [of fs "note_files fs root_dir" "([], [])" "(graph, paths)"] assms
    by (simp add: build_note_graph_record)
  then have "fst ` set graph = fst ` set paths"
    by (metis list.set_map)
  with keys show ?thesis
    by (simp add: dom_map_of_conv_image_fst)
qed

theorem build_note_graph_same_keys_witness:
  "build_note_graph example_vault ''v'' =
     Inr ([(''a'', [''b'', ''c'']), (''b'', [])], [(''a'', ''v/a.md''), (''b'', ''v/sub/b.md'')])
   \<and> map fst [(''a'', [''b'', ''c'']), (''b'', [])]
       = map fst [(''a'', ''v/a.md''), (''b'', ''v/sub/b.md'')]
   \<and> dom (map_of [(''a'', [''b'', ''c'']), (''b'', [])])
       = dom (map_of [(''a'', ''v/a.md''), (''b'', ''v/sub/b.md'')])"
proof -
  have h: "build_note_graph example_vault ''v'' =
     Inr ([(''a'', [''b'', ''c'']), (''b'', [])], [(''a'', ''v/a.md''), (''b'', ''v/sub/b.md'')])"
    by code_simp
  show ?thesis
    by (rule conjI [OF h build_note_graph_same_keys [OF h]])
qed

lemma record_notes_completes:
  "\<forall>(name, path) \<in> set ns. \<forall>e. read_text fs path = Inl e \<longrightarrow> e = FileNotFoundError
   \<Longrightarrow> \<exists>gp'. record_notes fs ns gp = Inr gp'"
proof (induction ns arbitrary: gp)
  case Nil then show ?case by simp
next
  case (Cons a ns)
  obtain name path where a: "a = (name, path)" by (cases a)
  from Cons.prems have "\<forall>e. read_text fs path = Inl e \<longrightarrow> e = FileNotFoundError"
    by (simp add: a)
  then have "\<exists>links. extract_links_from_file fs path = Inr links"
    by (cases "read_text fs path") (simp_all add: extract_links_from_file_def)
  then obtain links where l: "extract_links_from_file fs path = Inr links" ..
  from Cons.prems have "\<forall>(name, path) \<in> set ns. \<forall>e. read_text fs path = Inl e \<longrightarrow> e = FileNotFoundError"
    by simp
  from Cons.IH[OF this] show ?case by (simp add: a l)
qed

lemma record_notes_origin:
  "record_notes fs ns gp = Inr gp' \<Longrightarrow> map_of (fst gp') n = Some ls
   \<Longrightarrow> map_of (fst gp) n = Some ls
       \<or> (\<exists>path. (n, path) \<in> set ns \<and> extract_links_from_file fs path = Inr ls)"
proof (induction ns arbitrary: gp)
  case Nil then show ?case by simp
next
  case (Cons a ns)
  obtain name path where a: "a = (name, path)" by (cases a)
  from Cons.prems(1) obtain links where
    l: "extract_links_from_file fs path = Inr links"
    and r: "record_notes fs ns (AList.update name links (fst gp), AList.update name path (snd gp)) = Inr gp'"
    by (auto simp: a split: sum.splits)
  from Cons.IH[OF r Cons.prems(2)]
  show ?case using l by (auto simp: a update_conv' split: if_splits)
qed

lemma record_notes_keys_grow:
  "record_notes fs ns gp = Inr gp' \<Longrightarrow>
   set (map fst (fst gp)) \<union> set (map fst ns) \<subseteq> set (map fst (fst gp'))"
proof (induction ns arbitrary: gp)
  case Nil then show ?case by simp
next
  case (Cons a ns)
  obtain name path where a: "a = (name, path)" by (cases a)
  from Cons.prems(1) obtain links where
    r: "record_notes fs ns (AList.update name links (fst gp), AList.update name path (snd gp)) = Inr gp'"
    by (auto simp: a split: sum.splits)
  from Cons.IH[OF r] show ?case by (auto simp: a dom_update)
qed

text \<open>
  Claim C2, as stated, fails: \<open>extract_links_from_file\<close> catches \<open>FileNotFoundError\<close> only, so
  a note whose read fails with a permission error aborts the whole build.
\<close>

theorem build_note_graph_permission_error_aborts:
  "read_text locked_vault ''v/a.md'' = Inl PermissionError
   \<and> build_note_graph locked_vault ''v'' = Inl PermissionError"
  by code_simp

lemma build_note_graph_only_missing:
  assumes "\<forall>(name, path) \<in> set (note_files fs root_dir).
             \<forall>e. read_text fs path = Inl e \<longrightarrow> e = FileNotFoundError"
  shows "\<exists>graph paths. build_note_graph fs root_dir = Inr (graph, paths)
           \<and> ((n, p) \<in> set (note_files fs root_dir)
                \<and> (\<forall>p'. (n, p') \<in> set (note_files fs root_dir)
                       \<longrightarrow> read_text fs p' = Inl FileNotFoundError)
               \<longrightarrow> map_of graph n = Some [])"
proof -
  from record_notes_completes[OF assms, of "([], [])"] obtain graph paths where
    b: "record_notes fs (note_files fs root_dir) ([], []) = Inr (graph, paths)"
    by (metis surj_pair)
  have "map_of graph n = Some []"
    if np: "(n, p) \<in> set (note_files fs root_dir)"
      and miss: "\<forall>p'. (n, p') \<in> set (note_files fs root_dir)
                       \<longrightarrow> read_text fs p' = Inl FileNotFoundError"
  proof -
    from record_notes_keys_grow[OF b] np have "n \<in> set (map fst graph)" by force
    then obtain ls where ls: "map_of graph n = Some ls"
      by (metis map_of_eq_None_iff not_Some_eq set_map)
    from record_notes_origin[OF b] ls obtain p' where
      p': "(n, p') \<in> set (note_files fs root_dir)" "extract_links_from_file fs p' = Inr ls"
      by fastforce
    from miss p'(1) have "read_text fs p' = Inl FileNotFoundError" by blast
    with p'(2) have "ls = []" by (simp add: extract_links_from_file_def)
    with ls show ?thesis by simp
  qed
  with b show ?thesis by (auto simp: build_note_graph_record)
qed


lemma record_notes_aborts:
  assumes "(m, q) \<in> set ns" "read_text fs q = Inl e" "e \<noteq> FileNotFoundError"
  shows "\<exists>m' q' e'. (m', q') \<in> set ns \<and> read_text fs q' = Inl e'
           \<and> e' \<noteq> FileNotFoundError \<and> record_notes fs ns gp = Inl e'"
  using assms(1)
proof (induction ns arbitrary: gp)
  case Nil
  then show ?case by simp
next
  case (Cons a ns)
  obtain name path where a: "a = (name, path)" by (cases a)
  show ?case
  proof (cases "extract_links_from_file fs path")
    case (Inl e0)
    then have "read_text fs path = Inl e0" "e0 \<noteq> FileNotFoundError"
      by (auto simp: extract_links_from_file_def split: sum.splits if_splits)
    with Inl show ?thesis by (auto simp: a)
  next
    case (Inr links)
    have "(m, q) \<noteq> (name, path)"
      using Inr assms(2,3) by (auto simp: extract_links_from_file_def)
    with Cons.prems a have "(m, q) \<in> set ns" by auto
    from Cons.IH [OF this, of "(AList.update name links (fst gp), AList.update name path (snd gp))"]
    show ?thesis using Inr by (auto simp: a)
  qed
qed

text \<open>
  Claim C2, amended. A note file whose read fails because the file is missing
  (\<open>FileNotFoundError\<close>, for example a file that vanished between listing and read) counts as
  a note without links: if the failing reads of note files are all of this kind, the build of
  the whole graph completes, and a note whose files are all missing is recorded with zero
  outbound links. Any other failure of the read of a note file (a permission error,
  undecodable content, another error of the operating system) is not caught: the build then
  returns no graph and raises such an exception of one of the note files.
\<close>

theorem build_note_graph_read_failures:
  "((\<forall>(name, path) \<in> set (note_files fs root_dir).
        \<forall>e. read_text fs path = Inl e \<longrightarrow> e = FileNotFoundError)
     \<longrightarrow> (\<exists>graph paths. build_note_graph fs root_dir = Inr (graph, paths)
           \<and> ((n, p) \<in> set (note_files fs root_dir)
                \<and> (\<forall>p'. (n, p') \<in> set (note_files fs root_dir)
                       \<longrightarrow> read_text fs p' = Inl FileNotFoundError)
               \<longrightarrow> map_of graph n = Some [])))
   \<and> ((m, q) \<in> set (note_files fs root_dir) \<and> read_text fs q = Inl e
        \<and> e \<noteq> FileNotFoundError
     \<longrightarrow> (\<exists>m' q' e'. (m', q') \<in> set (note_files fs root_dir) \<and> read_text fs q' = Inl e'
           \<and> e' \<noteq> FileNotFoundError \<and> build_note_graph fs root_dir = Inl e'))"
proof (intro conjI impI)
  assume "\<forall>(name, path) \<in> set (note_files fs root_dir).
        \<forall>e. read_text fs path = Inl e \<longrightarrow> e = FileNotFoundError"
  then show "\<exists>graph paths. build_note_graph fs root_dir = Inr (graph, paths)
           \<and> ((n, p) \<in> set (note_files fs root_dir)
                \<and> (\<forall>p'. (n, p') \<in> set (note_files fs root_dir)
                       \<longrightarrow> read_text fs p' = Inl FileNotFoundError)
               \<longrightarrow> map_of graph n = Some [])"
    by (rule build_note_graph_only_missing)
next
  assume "(m, q) \<in> set (note_files fs root_dir) \<and> read_text fs q = Inl e
        \<and> e \<noteq> FileNotFoundError"
  then show "\<exists>m' q' e'. (m', q') \<in> set (note_files fs root_dir) \<and> read_text fs q' = Inl e'
           \<and> e' \<noteq> FileNotFoundError \<and> build_note_graph fs root_dir = Inl e'"
    using record_notes_aborts [of m q "note_files fs root_dir" fs e "([], [])"]
    by (simp add: build_note_graph_record)
qed

theorem build_note_graph_read_failures_witness:
  "(''b'', ''v/sub/b.md'') \<in> set (note_files example_vault ''v'')
   \<and> read_text example_vault ''v/sub/b.md'' = Inl FileNotFoundError
   \<and> (\<exists>graph paths. build_note_graph example_vault ''v'' = Inr (graph, paths)
           \<and> map_of graph ''b'' = Some [])
   \<and> (''a'', ''v/a.md'') \<in> set (note_files undecodable_vault ''v'')
   \<and> read_text undecodable_vault ''v/a.md'' = Inl UnicodeDecodeError
   \<and> UnicodeDecodeError \<noteq> FileNotFoundError
   \<and> (\<exists>m' q' e'. (m', q') \<in> set (note_files undecodable_vault ''v'')
          \<and> read_text undecodable_vault q' = Inl e'
          \<and> e' \<noteq> FileNotFoundError \<and> build_note_graph undecodable_vault ''v'' = Inl e')"
proof -
  have nf: "note_files example_vault ''v'' = [(''a'', ''v/a.md''), (''b'', ''v/sub/b.md'')]"
    by code_simp
  have h1: "\<forall>(name, path) \<in> set (note_files example_vault ''v'').
       \<forall>e. read_text example_vault path = Inl e \<longrightarrow> e = FileNotFoundError"
    unfolding nf by (simp add: example_vault_def read_text_def)
  have h2: "(''b'', ''v/sub/b.md'') \<in> set (note_files example_vault ''v'')"
    by (simp add: nf)
  have h3: "\<forall>p'. (''b'', p') \<in> set (note_files example_vault ''v'')
           \<longrightarrow> read_text example_vault p' = Inl FileNotFoundError"
    unfolding nf by (simp add: example_vault_def read_text_def)
  have h4: "read_text example_vault ''v/sub/b.md'' = Inl FileNotFoundError"
    by (simp add: example_vault_def read_text_def)
  from build_note_graph_read_failures [of example_vault "''v''" "''b''" "''v/sub/b.md''"]
    h1 h2 h3
  have a: "\<exists>graph paths. build_note_graph example_vault ''v'' = Inr (graph, paths)
           \<and> map_of graph ''b'' = Some []"
    by blast
  have g1: "(''a'', ''v/a.md'') \<in> set (note_files undecodable_vault ''v'')"
    by code_simp
  have g2: "read_text undecodable_vault ''v/a.md'' = Inl UnicodeDecodeError"
    by (simp add: undecodable_vault_def read_text_def)
  have g3: "UnicodeDecodeError \<noteq> FileNotFoundError" by simp
  from build_note_graph_read_failures
    [of undecodable_vault "''v''" _ _ "''a''" "''v/a.md''" UnicodeDecodeError] g1 g2 g3
  have b: "\<exists>m' q' e'. (m', q') \<in> set (note_files undecodable_vault ''v'')
          \<and> read_text undecodable_vault q' = Inl e'
          \<and> e' \<noteq> FileNotFoundError \<and> build_note_graph undecodable_vault ''v'' = Inl e'"
    by blast
  from h2 h4 a g1 g2 g3 b show ?thesis by blast
qed


section \<open>The editing loop\<close>

lemma and_then_Inr [simp]: "and_then (Inr v) f = f v"
  by (simp add: and_then_def)

lemma and_then_Inl [simp]: "and_then (Inl e) f = Inl e"
  by (simp add: and_then_def)

lemma py_get_in_range: "0 \<le> i \<Longrightarrow> i < int (length xs) \<Longrightarrow> py_get xs i = Inr (xs ! nat i)"
  by (simp add: py_get_def py_index_def)

lemma py_set_in_range: "0 \<le> i \<Longrightarrow> i < int (length xs) \<Longrightarrow> py_set xs i v = Inr (xs[nat i := v])"
  by (simp add: py_set_def py_index_def)

lemma py_pop_in_range:
  "0 \<le> i \<Longrightarrow> i < int (length xs) \<Longrightarrow> py_pop xs i = Inr (take (nat i) xs @ drop (Suc (nat i)) xs)"
  by (simp add: py_pop_def py_index_def)

lemma py_prefix_nonneg: "0 \<le> i \<Longrightarrow> py_prefix s i = take (nat i) s"
  by (simp add: py_prefix_def slice_bound_def min_def)

lemma py_suffix_nonneg: "0 \<le> i \<Longrightarrow> py_suffix s i = drop (nat i) s"
  by (simp add: py_suffix_def slice_bound_def min_def)

lemma py_insert_in_range:
  "0 \<le> i \<Longrightarrow> i \<le> int (length xs) \<Longrightarrow> py_insert xs i v = take (nat i) xs @ v # drop (nat i) xs"
  by (simp add: py_insert_def slice_bound_def min_def Let_def)

lemma nat_int_Suc: "nat (int n + 1) = Suc n"
  by simp

lemmas py_ops = nat_int_Suc py_get_in_range py_set_in_range py_pop_in_range py_prefix_nonneg
  py_suffix_nonneg py_insert_in_range

text \<open>The buffer around the cursor row.\<close>

lemma cursor_ok_split:
  assumes "cursor_ok st"
  obtains pre line post where "buffer st = pre @ line # post"
    and "cursor_y st = int (length pre)"
    and "0 \<le> cursor_x st" and "cursor_x st \<le> int (length line)"
proof -
  let ?i = "nat (cursor_y st)"
  from assms have i: "?i < length (buffer st)" and y: "cursor_y st = int ?i"
    by (auto simp: cursor_ok_def)
  have "buffer st = take ?i (buffer st) @ (buffer st ! ?i) # drop (Suc ?i) (buffer st)"
    using i by (rule id_take_nth_drop)
  moreover have "cursor_y st = int (length (take ?i (buffer st)))"
    using i y by simp
  moreover have "0 \<le> cursor_x st" "cursor_x st \<le> int (length (buffer st ! ?i))"
    using assms by (auto simp: cursor_ok_def)
  ultimately show thesis by (rule that)
qed

lemma cursor_okI:
  "buffer st = pre @ line # post \<Longrightarrow> cursor_y st = int (length pre)
   \<Longrightarrow> 0 \<le> cursor_x st \<Longrightarrow> cursor_x st \<le> int (length line) \<Longrightarrow> cursor_ok st"
  by (simp add: cursor_ok_def)

lemma key_enter_at:
  assumes "buffer st = pre @ line # post" "cursor_y st = int (length pre)"
    "0 \<le> cursor_x st" "cursor_x st \<le> int (length line)"
  shows "key_enter st =
     Inr (st\<lparr>save_status := False,
             buffer := pre @ take (nat (cursor_x st)) line # drop (nat (cursor_x st)) line # post,
             cursor_y := int (length pre) + 1, cursor_x := 0\<rparr>)"
  using assms by (simp add: key_enter_def py_ops)

lemma key_tab_at:
  assumes "buffer st = pre @ line # post" "cursor_y st = int (length pre)"
    "0 \<le> cursor_x st" "cursor_x st \<le> int (length line)"
  shows "key_tab st =
     Inr (st\<lparr>save_status := False,
             buffer := pre @ (take (nat (cursor_x st)) line @ ''    '' @ drop (nat (cursor_x st)) line) # post,
             cursor_x := cursor_x st + 4\<rparr>)"
  using assms by (simp add: key_tab_def py_ops)

lemma key_char_at:
  assumes "buffer st = pre @ line # post" "cursor_y st = int (length pre)"
    "0 \<le> cursor_x st" "cursor_x st \<le> int (length line)"
  shows "key_char key st =
     Inr (st\<lparr>save_status := False,
             buffer := pre @ (take (nat (cursor_x st)) line @ [char_of key] @ drop (nat (cursor_x st)) line) # post,
             cursor_x := cursor_x st + 1\<rparr>)"
  using assms by (simp add: key_char_def py_ops)

lemma key_backspace_delete:
  assumes "buffer st = pre @ line # post" "cursor_y st = int (length pre)"
    "0 < cursor_x st" "cursor_x st \<le> int (length line)"
  shows "key_backspace st =
     Inr (st\<lparr>save_status := False,
             buffer := pre @ (take (nat (cursor_x st - 1)) line @ drop (nat (cursor_x st)) line) # post,
             cursor_x := cursor_x st - 1\<rparr>)"
  using assms by (simp add: key_backspace_def py_ops)

lemma key_backspace_join:
  assumes "buffer st = pre @ prev # line # post" "cursor_y st = int (length pre) + 1"
    "cursor_x st = 0"
  shows "key_backspace st =
     Inr (st\<lparr>save_status := False, buffer := pre @ (prev @ line) # post,
             cursor_y := int (length pre), cursor_x := int (length prev)\<rparr>)"
  using assms by (simp add: key_backspace_def py_ops nth_append nat_add_distrib list_update_append)

subsection \<open>Cursor motion under the cursor invariant\<close>

lemma key_left_ok:
  assumes "cursor_ok st"
  shows "key_left st =
     Inr (if cursor_x st > 0 then st\<lparr>cursor_x := cursor_x st - 1\<rparr>
          else if cursor_y st > 0 then
            st\<lparr>cursor_y := cursor_y st - 1,
               cursor_x := int (length (buffer st ! nat (cursor_y st - 1)))\<rparr>
          else st)"
  using assms by (simp add: key_left_def cursor_ok_def py_ops)

lemma key_right_ok:
  assumes "cursor_ok st"
  shows "key_right st =
     Inr (if cursor_x st < int (length (buffer st ! nat (cursor_y st)))
          then st\<lparr>cursor_x := cursor_x st + 1\<rparr>
          else if cursor_y st < int (length (buffer st)) - 1
          then st\<lparr>cursor_y := cursor_y st + 1, cursor_x := 0\<rparr>
          else st)"
  using assms by (simp add: key_right_def cursor_ok_def py_ops)

lemma key_up_ok:
  assumes "cursor_ok st"
  shows "key_up st =
     Inr (if cursor_y st > 0
          then st\<lparr>cursor_y := cursor_y st - 1,
                  cursor_x := min (cursor_x st) (int (length (buffer st ! nat (cursor_y st - 1))))\<rparr>
          else st\<lparr>cursor_x := 0\<rparr>)"
  using assms by (simp add: key_up_def cursor_ok_def py_ops)

lemma key_down_ok:
  assumes "cursor_ok st"
  shows "key_down st =
     Inr (if cursor_y st < int (length (buffer st)) - 1
          then st\<lparr>cursor_y := cursor_y st + 1,
                  cursor_x := min (cursor_x st) (int (length (buffer st ! nat (cursor_y st + 1))))\<rparr>
          else st\<lparr>cursor_x := int (length (buffer st ! nat (cursor_y st)))\<rparr>)"
  using assms by (simp add: key_down_def cursor_ok_def py_ops)

subsection \<open>Every key keeps the cursor invariant\<close>

lemma key_enter_keeps: "cursor_ok st \<Longrightarrow> keeps st (key_enter st)"
proof -
  assume "cursor_ok st"
  then obtain pre line post where b: "buffer st = pre @ line # post"
    "cursor_y st = int (length pre)" "0 \<le> cursor_x st" "cursor_x st \<le> int (length line)"
    by (rule cursor_ok_split)
  show ?thesis
    unfolding keeps_def key_enter_at [OF b]
    by (simp add: cursor_ok_def nth_append)
qed

lemma key_tab_keeps: "cursor_ok st \<Longrightarrow> keeps st (key_tab st)"
proof -
  assume "cursor_ok st"
  then obtain pre line post where b: "buffer st = pre @ line # post"
    "cursor_y st = int (length pre)" "0 \<le> cursor_x st" "cursor_x st \<le> int (length line)"
    by (rule cursor_ok_split)
  show ?thesis
    unfolding keeps_def key_tab_at [OF b]
    using b by (simp add: cursor_ok_def nth_append)
qed

lemma key_char_keeps: "cursor_ok st \<Longrightarrow> keeps st (key_char key st)"
proof -
  assume "cursor_ok st"
  then obtain pre line post where b: "buffer st = pre @ line # post"
    "cursor_y st = int (length pre)" "0 \<le> cursor_x st" "cursor_x st \<le> int (length line)"
    by (rule cursor_ok_split)
  show ?thesis
    unfolding keeps_def key_char_at [OF b]
    using b by (simp add: cursor_ok_def nth_append)
qed

lemma key_backspace_keeps: "cursor_ok st \<Longrightarrow> keeps st (key_backspace st)"
proof -
  assume ok: "cursor_ok st"
  then obtain pre line post where b: "buffer st = pre @ line # post"
    "cursor_y st = int (length pre)" "0 \<le> cursor_x st" "cursor_x st \<le> int (length line)"
    by (rule cursor_ok_split)
  consider "0 < cursor_x st" | "cursor_x st = 0" "pre \<noteq> []" | "cursor_x st = 0" "pre = []"
    using b(3) by fastforce
  then show ?thesis
  proof cases
    case 1
    show ?thesis
      unfolding keeps_def key_backspace_delete [OF b(1,2) 1 b(4)]
      using b 1 by (simp add: cursor_ok_def nth_append)
  next
    case 2
    then obtain pre' prev where p: "pre = pre' @ [prev]"
      by (metis rev_exhaust)
    have b': "buffer st = pre' @ prev # line # post" "cursor_y st = int (length pre') + 1"
      using b p by simp_all
    show ?thesis
      unfolding keeps_def key_backspace_join [OF b' 2(1)]
      by (simp add: cursor_ok_def nth_append)
  next
    case 3
    then have "key_backspace st = Inr (st\<lparr>save_status := False\<rparr>)"
      using b by (simp add: key_backspace_def)
    then show ?thesis
      using ok by (simp add: keeps_def cursor_ok_def)
  qed
qed

lemma key_left_keeps: "cursor_ok st \<Longrightarrow> keeps st (key_left st)"
  unfolding keeps_def by (simp add: key_left_ok) (auto simp: cursor_ok_def)

lemma key_right_keeps: "cursor_ok st \<Longrightarrow> keeps st (key_right st)"
  unfolding keeps_def by (simp add: key_right_ok) (auto simp: cursor_ok_def)

lemma key_up_keeps: "cursor_ok st \<Longrightarrow> keeps st (key_up st)"
  unfolding keeps_def by (simp add: key_up_ok) (auto simp: cursor_ok_def)

lemma key_down_keeps: "cursor_ok st \<Longrightarrow> keeps st (key_down st)"
  unfolding keeps_def by (simp add: key_down_ok) (auto simp: cursor_ok_def)

lemma key_save_keeps: "cursor_ok st \<Longrightarrow> keeps st (key_save None st)"
  by (simp add: keeps_def key_save_def cursor_ok_def)

lemma keeps_same: "cursor_ok st \<Longrightarrow> keeps st (Inr st)"
  by (simp add: keeps_def)

lemma handle_key_keeps:
  assumes "cursor_ok st" "key = 19 \<longrightarrow> write_error = None"
  shows "keeps st (handle_key key current_link write_error st)"
  using assms
  by (simp add: handle_key_def key_enter_keeps key_tab_keeps key_char_keeps
      key_backspace_keeps key_left_keeps key_right_keeps key_up_keeps key_down_keeps
      key_save_keeps keeps_same)

lemma handle_key_write_error:
  "handle_key 19 current_link (Some e) st = Inl e"
  by (simp add: handle_key_def key_save_def)

lemma scroll_adjust_fields [simp]:
  "buffer (scroll_adjust height st) = buffer st"
  "cursor_y (scroll_adjust height st) = cursor_y st"
  "cursor_x (scroll_adjust height st) = cursor_x st"
  by (simp_all add: scroll_adjust_def)

lemma scroll_adjust_cursor_ok [simp]: "cursor_ok (scroll_adjust height st) = cursor_ok st"
  by (simp add: cursor_ok_def)

lemma scroll_adjust_invariant:
  "cursor_ok st \<Longrightarrow> 0 \<le> offset st \<Longrightarrow> 2 \<le> height \<Longrightarrow> invariant (scroll_adjust height st)"
  unfolding invariant_def scroll_adjust_cursor_ok
  by (auto simp: scroll_adjust_def cursor_ok_def)

text \<open>
  Claim C8, amended. On a terminal of at least two rows, every pass of the editing loop
  keeps the state invariant (a non-empty buffer, \<open>0 \<le> row < len(lines)\<close>,
  \<open>0 \<le> col \<le> len(lines[row])\<close>, \<open>0 \<le> offset \<le> row\<close>), whatever the key: character
  insert, Enter, Tab, backspace, the four arrows, save, any other key, each followed by the
  scroll adjustment. The pass returns no state only when the key is CTRL+Q, and raises only
  when the write of a save fails.
\<close>

theorem editor_step_invariant:
  assumes "invariant st" "2 \<le> height"
  shows "case editor_step height key current_link write_error st of
           Inr (Some st') \<Rightarrow> invariant st'
         | Inr None \<Rightarrow> key = 17
         | Inl e \<Rightarrow> key = 19 \<and> write_error = Some e"
proof -
  from assms(1) have ok: "cursor_ok st" and off: "0 \<le> offset st"
    by (simp_all add: invariant_def)
  consider "key = - 1" | "key = 17" | e where "key = 19" "write_error = Some e"
    | "key \<noteq> - 1" "key \<noteq> 17" "key = 19 \<longrightarrow> write_error = None"
    by (cases write_error) auto
  then show ?thesis
  proof cases
    case 1
    with assms(1) show ?thesis by (simp add: editor_step_def)
  next
    case 2
    then show ?thesis by (simp add: editor_step_def)
  next
    case 3
    then show ?thesis by (simp add: editor_step_def handle_key_write_error)
  next
    case 4
    from handle_key_keeps [OF ok 4(3)] obtain st' where
      h: "handle_key key current_link write_error st = Inr st'"
      and ok': "cursor_ok st'" and off': "offset st' = offset st"
      unfolding keeps_def by blast
    from scroll_adjust_invariant [OF ok' _ assms(2)] off off'
    have "invariant (scroll_adjust height st')" by simp
    with 4 h show ?thesis by (simp add: editor_step_def)
  qed
qed
lemmas key_codes = KEY_DOWN_def KEY_UP_def KEY_LEFT_def KEY_RIGHT_def KEY_BACKSPACE_def

lemma handle_key_arrows:
  "handle_key KEY_LEFT l w st = key_left st"
  "handle_key KEY_RIGHT l w st = key_right st"
  "handle_key KEY_UP l w st = key_up st"
  "handle_key KEY_DOWN l w st = key_down st"
  by (simp_all add: handle_key_def key_codes)

lemma scroll_adjust_in_view:
  "offset st \<le> cursor_y st \<Longrightarrow> cursor_y st \<le> offset st + (height - 2)
   \<Longrightarrow> scroll_adjust height st = st"
  by (cases "cursor_y st = offset st + (height - 2)") (auto simp: scroll_adjust_def)

lemma left_on_hello:
  assumes "2 \<le> height" "0 \<le> col"
  shows "editor_step height KEY_LEFT False None (hello_at col)
         = Inr (Some (hello_at (if col > 0 then col - 1 else col)))"
proof -
  have "handle_key KEY_LEFT False None (hello_at col)
        = Inr (hello_at (if col > 0 then col - 1 else col))"
    by (simp add: handle_key_arrows key_left_def hello_at_def)
  moreover have "scroll_adjust height (hello_at c) = hello_at c" for c
    using assms(1) by (intro scroll_adjust_in_view) (simp_all add: hello_at_def)
  ultimately show ?thesis
    by (simp add: editor_step_def KEY_LEFT_def)
qed

theorem editor_step_invariant_witness:
  "invariant (two_lines_at 1 0) \<and> (2::int) \<le> 24
   \<and> (case editor_step 24 KEY_BACKSPACE False None (two_lines_at 1 0) of
           Inr (Some st') \<Rightarrow> invariant st'
         | Inr None \<Rightarrow> KEY_BACKSPACE = 17
         | Inl e \<Rightarrow> KEY_BACKSPACE = 19 \<and> None = Some e)"
proof -
  have h1: "invariant (two_lines_at 1 0)"
    by (simp add: invariant_def cursor_ok_def two_lines_at_def)
  have h2: "(2::int) \<le> 24" by simp
  show ?thesis
    by (intro conjI h1 h2 editor_step_invariant [OF h1 h2])
qed

text \<open>
  Claim C8, as stated, fails on a terminal of one row: there \<open>height - 2\<close> is negative, so
  after any key the scroll adjustment sets the offset to \<open>row + 1\<close>, above the cursor row.
\<close>

theorem scroll_adjust_breaks_invariant_on_one_row:
  "invariant new_note
   \<and> editor_step 1 KEY_LEFT False None new_note = Inr (Some (new_note\<lparr>offset := 1\<rparr>))
   \<and> \<not> invariant (new_note\<lparr>offset := 1\<rparr>)"
  by (simp add: invariant_def cursor_ok_def new_note_def editor_step_def handle_key_def
      key_left_def scroll_adjust_def KEY_LEFT_def KEY_BACKSPACE_def)

text \<open>
  Claim C7. From every state that satisfies the cursor invariant, Enter (the line is split at
  the cursor column and the cursor moves to column 0 of the new next row) followed at once by
  backspace restores the original sequence of lines and the original cursor row and column.
\<close>

theorem split_then_backspace_restores:
  assumes "cursor_ok st" "k1 = 10 \<or> k1 = 13"
    and "k2 = KEY_BACKSPACE \<or> k2 = 127 \<or> k2 = 8"
  shows "\<exists>st1 st2.
           editor_step h1 k1 l1 w1 st = Inr (Some st1)
         \<and> cursor_y st1 = cursor_y st + 1 \<and> cursor_x st1 = 0
         \<and> editor_step h2 k2 l2 w2 st1 = Inr (Some st2)
         \<and> buffer st2 = buffer st
         \<and> cursor_y st2 = cursor_y st \<and> cursor_x st2 = cursor_x st"
proof -
  from assms(1) obtain pre line post where b: "buffer st = pre @ line # post"
    "cursor_y st = int (length pre)" "0 \<le> cursor_x st" "cursor_x st \<le> int (length line)"
    by (rule cursor_ok_split)
  define st1' where "st1' = st\<lparr>save_status := False,
             buffer := pre @ take (nat (cursor_x st)) line # drop (nat (cursor_x st)) line # post,
             cursor_y := int (length pre) + 1, cursor_x := 0\<rparr>"
  define st1 where "st1 = scroll_adjust h1 st1'"
  have k1: "handle_key k1 l1 w1 st = Inr st1'"
    using assms(2) by (auto simp: handle_key_def key_enter_at [OF b] st1'_def)
  have s1: "editor_step h1 k1 l1 w1 st = Inr (Some st1)"
    using assms(2) k1 by (auto simp: editor_step_def st1_def)
  have b1: "buffer st1 = pre @ take (nat (cursor_x st)) line # drop (nat (cursor_x st)) line # post"
    "cursor_y st1 = int (length pre) + 1" "cursor_x st1 = 0"
    by (simp_all add: st1_def st1'_def)
  define st2' where "st2' = st1\<lparr>save_status := False,
             buffer := pre @ (take (nat (cursor_x st)) line @ drop (nat (cursor_x st)) line) # post,
             cursor_y := int (length pre), cursor_x := int (length (take (nat (cursor_x st)) line))\<rparr>"
  have k2: "handle_key k2 l2 w2 st1 = Inr st2'"
    using assms(3)
    by (auto simp: handle_key_def key_backspace_join [OF b1] st2'_def KEY_BACKSPACE_def)
  have s2: "editor_step h2 k2 l2 w2 st1 = Inr (Some (scroll_adjust h2 st2'))"
    using assms(3) k2 by (auto simp: editor_step_def KEY_BACKSPACE_def)
  have r: "buffer (scroll_adjust h2 st2') = buffer st"
    "cursor_y (scroll_adjust h2 st2') = cursor_y st"
    "cursor_x (scroll_adjust h2 st2') = cursor_x st"
    using b by (auto simp: st2'_def min_def)
  from s1 s2 b1 b r show ?thesis by auto
qed

theorem split_then_backspace_restores_witness:
  "cursor_ok (hello_at 2) \<and> ((10::int) = 10 \<or> (10::int) = 13)
   \<and> (KEY_BACKSPACE = KEY_BACKSPACE \<or> KEY_BACKSPACE = 127 \<or> KEY_BACKSPACE = 8)
   \<and> (\<exists>st1 st2.
           editor_step 24 10 False None (hello_at 2) = Inr (Some st1)
         \<and> cursor_y st1 = cursor_y (hello_at 2) + 1 \<and> cursor_x st1 = 0
         \<and> editor_step 24 KEY_BACKSPACE False None st1 = Inr (Some st2)
         \<and> buffer st2 = buffer (hello_at 2)
         \<and> cursor_y st2 = cursor_y (hello_at 2) \<and> cursor_x st2 = cursor_x (hello_at 2))"
proof -
  have h1: "cursor_ok (hello_at 2)"
    by (simp add: cursor_ok_def hello_at_def)
  have h2: "(10::int) = 10 \<or> (10::int) = 13" by simp
  have h3: "KEY_BACKSPACE = KEY_BACKSPACE \<or> KEY_BACKSPACE = 127 \<or> KEY_BACKSPACE = 8" by simp
  show ?thesis
    by (intro conjI h1 h2 h3 split_then_backspace_restores [OF h1 h2 h3])
qed

lemma left_on_hello_cursor:
  assumes "buffer st = [''hello'']" "cursor_y st = 0" "0 \<le> cursor_x st"
  shows "\<exists>st'. editor_step height KEY_LEFT False None st = Inr (Some st')
           \<and> buffer st' = [''hello''] \<and> cursor_y st' = 0
           \<and> cursor_x st' = (if cursor_x st > 0 then cursor_x st - 1 else 0)"
proof -
  have "handle_key KEY_LEFT False None st
        = Inr (if cursor_x st > 0 then st\<lparr>cursor_x := cursor_x st - 1\<rparr> else st)"
    using assms by (simp add: handle_key_arrows key_left_def)
  then show ?thesis
    using assms by (auto simp: editor_step_def KEY_LEFT_def)
qed

lemma five_lefts_on_hello:
  "\<exists>st5. press_keys height [KEY_LEFT, KEY_LEFT, KEY_LEFT, KEY_LEFT, KEY_LEFT] (hello_at 5)
             = Inr (Some st5)
         \<and> buffer st5 = [''hello''] \<and> cursor_y st5 = 0 \<and> cursor_x st5 = 0"
proof -
  have s0: "buffer (hello_at 5) = [''hello'']" "cursor_y (hello_at 5) = 0"
    "cursor_x (hello_at 5) = 5"
    by (simp_all add: hello_at_def)
  from left_on_hello_cursor [of "hello_at 5" height] s0 obtain st1 where
    s1: "editor_step height KEY_LEFT False None (hello_at 5) = Inr (Some st1)"
    "buffer st1 = [''hello'']" "cursor_y st1 = 0" "cursor_x st1 = 4"
    by auto
  from left_on_hello_cursor [of st1 height] s1 obtain st2 where
    s2: "editor_step height KEY_LEFT False None st1 = Inr (Some st2)"
    "buffer st2 = [''hello'']" "cursor_y st2 = 0" "cursor_x st2 = 3"
    by auto
  from left_on_hello_cursor [of st2 height] s2 obtain st3 where
    s3: "editor_step height KEY_LEFT False None st2 = Inr (Some st3)"
    "buffer st3 = [''hello'']" "cursor_y st3 = 0" "cursor_x st3 = 2"
    by auto
  from left_on_hello_cursor [of st3 height] s3 obtain st4 where
    s4: "editor_step height KEY_LEFT False None st3 = Inr (Some st4)"
    "buffer st4 = [''hello'']" "cursor_y st4 = 0" "cursor_x st4 = 1"
    by auto
  from left_on_hello_cursor [of st4 height] s4 obtain st5 where
    s5: "editor_step height KEY_LEFT False None st4 = Inr (Some st5)"
    "buffer st5 = [''hello'']" "cursor_y st5 = 0" "cursor_x st5 = 0"
    by auto
  have "press_keys height [KEY_LEFT, KEY_LEFT, KEY_LEFT, KEY_LEFT, KEY_LEFT] (hello_at 5)
        = Inr (Some st5)"
    by (simp add: s1(1) s2(1) s3(1) s4(1) s5(1))
  with s5 show ?thesis by blast
qed

text \<open>
  Claim C9. Cursor motion, from every state that satisfies the cursor invariant: left at
  column 0 moves to the end of the previous line if there is one and changes nothing at row 0;
  right at the end of a line moves to column 0 of the next line if there is one and changes
  nothing at the end of the buffer; up and down keep the column, clamped to the length of the
  target line; up at row 0 sets the column to 0; down at the last row sets the column to the
  length of that line. On the single line \<open>hello\<close> with the cursor at column 5, on a terminal
  of any height, five presses of left reach column 0, and a sixth changes nothing: the key
  handler returns the state as it is, and the pass leaves the line and the cursor where
  they are.
\<close>

theorem cursor_motion:
  assumes "cursor_ok st"
  shows
  "(cursor_x st = 0 \<and> 0 < cursor_y st \<longrightarrow>
      handle_key KEY_LEFT l w st
      = Inr (st\<lparr>cursor_y := cursor_y st - 1,
                cursor_x := int (length (buffer st ! nat (cursor_y st - 1)))\<rparr>))
   \<and> (cursor_x st = 0 \<and> cursor_y st = 0 \<longrightarrow> handle_key KEY_LEFT l w st = Inr st)
   \<and> (cursor_x st = int (length (buffer st ! nat (cursor_y st)))
        \<and> cursor_y st < int (length (buffer st)) - 1 \<longrightarrow>
      handle_key KEY_RIGHT l w st = Inr (st\<lparr>cursor_y := cursor_y st + 1, cursor_x := 0\<rparr>))
   \<and> (cursor_x st = int (length (buffer st ! nat (cursor_y st)))
        \<and> cursor_y st = int (length (buffer st)) - 1 \<longrightarrow>
      handle_key KEY_RIGHT l w st = Inr st)
   \<and> (0 < cursor_y st \<longrightarrow>
      handle_key KEY_UP l w st
      = Inr (st\<lparr>cursor_y := cursor_y st - 1,
                cursor_x := min (cursor_x st) (int (length (buffer st ! nat (cursor_y st - 1))))\<rparr>))
   \<and> (cursor_y st = 0 \<longrightarrow> handle_key KEY_UP l w st = Inr (st\<lparr>cursor_x := 0\<rparr>))
   \<and> (cursor_y st < int (length (buffer st)) - 1 \<longrightarrow>
      handle_key KEY_DOWN l w st
      = Inr (st\<lparr>cursor_y := cursor_y st + 1,
                cursor_x := min (cursor_x st) (int (length (buffer st ! nat (cursor_y st + 1))))\<rparr>))
   \<and> (cursor_y st = int (length (buffer st)) - 1 \<longrightarrow>
      handle_key KEY_DOWN l w st
      = Inr (st\<lparr>cursor_x := int (length (buffer st ! nat (cursor_y st)))\<rparr>))
   \<and> (\<exists>st5 st6.
         press_keys height [KEY_LEFT, KEY_LEFT, KEY_LEFT, KEY_LEFT, KEY_LEFT] (hello_at 5)
           = Inr (Some st5)
         \<and> buffer st5 = [''hello''] \<and> cursor_y st5 = 0 \<and> cursor_x st5 = 0
         \<and> handle_key KEY_LEFT False None st5 = Inr st5
         \<and> editor_step height KEY_LEFT False None st5 = Inr (Some st6)
         \<and> buffer st6 = [''hello''] \<and> cursor_y st6 = 0 \<and> cursor_x st6 = 0)"
proof (intro conjI impI)
  from five_lefts_on_hello [of height] obtain st5 where
    s5: "press_keys height [KEY_LEFT, KEY_LEFT, KEY_LEFT, KEY_LEFT, KEY_LEFT] (hello_at 5)
           = Inr (Some st5)"
    "buffer st5 = [''hello'']" "cursor_y st5 = 0" "cursor_x st5 = 0"
    by blast
  have h: "handle_key KEY_LEFT False None st5 = Inr st5"
    using s5 by (simp add: handle_key_arrows key_left_def)
  from left_on_hello_cursor [of st5 height] s5 obtain st6 where
    "editor_step height KEY_LEFT False None st5 = Inr (Some st6)"
    "buffer st6 = [''hello'']" "cursor_y st6 = 0" "cursor_x st6 = 0"
    by auto
  with s5 h show "\<exists>st5 st6.
         press_keys height [KEY_LEFT, KEY_LEFT, KEY_LEFT, KEY_LEFT, KEY_LEFT] (hello_at 5)
           = Inr (Some st5)
         \<and> buffer st5 = [''hello''] \<and> cursor_y st5 = 0 \<and> cursor_x st5 = 0
         \<and> handle_key KEY_LEFT False None st5 = Inr st5
         \<and> editor_step height KEY_LEFT False None st5 = Inr (Some st6)
         \<and> buffer st6 = [''hello''] \<and> cursor_y st6 = 0 \<and> cursor_x st6 = 0"
    by blast
qed (simp_all add: handle_key_arrows key_left_ok [OF assms] key_right_ok [OF assms]
      key_up_ok [OF assms] key_down_ok [OF assms])

theorem cursor_motion_witness:
  "cursor_ok (two_lines_at 1 0) \<and> cursor_ok (two_lines_at 0 2)
   \<and> cursor_ok (hello_at 0) \<and> cursor_ok (hello_at 5)
   \<and> handle_key KEY_LEFT False None (two_lines_at 1 0) = Inr (two_lines_at 0 2)
   \<and> handle_key KEY_LEFT False None (hello_at 0) = Inr (hello_at 0)
   \<and> handle_key KEY_RIGHT False None (two_lines_at 0 2) = Inr (two_lines_at 1 0)
   \<and> handle_key KEY_RIGHT False None (hello_at 5) = Inr (hello_at 5)
   \<and> handle_key KEY_UP False None (two_lines_at 1 0) = Inr (two_lines_at 0 0)
   \<and> handle_key KEY_UP False None (two_lines_at 0 2) = Inr (two_lines_at 0 0)
   \<and> handle_key KEY_DOWN False None (two_lines_at 0 2) = Inr (two_lines_at 1 1)
   \<and> handle_key KEY_DOWN False None (two_lines_at 1 0) = Inr (two_lines_at 1 1)
   \<and> (\<exists>st5 st6.
         press_keys 1 [KEY_LEFT, KEY_LEFT, KEY_LEFT, KEY_LEFT, KEY_LEFT] (hello_at 5)
           = Inr (Some st5)
         \<and> buffer st5 = [''hello''] \<and> cursor_y st5 = 0 \<and> cursor_x st5 = 0
         \<and> handle_key KEY_LEFT False None st5 = Inr st5
         \<and> editor_step 1 KEY_LEFT False None st5 = Inr (Some st6)
         \<and> buffer st6 = [''hello''] \<and> cursor_y st6 = 0 \<and> cursor_x st6 = 0)"
proof -
  have h1: "cursor_ok (two_lines_at 1 0)"
    by (simp add: cursor_ok_def two_lines_at_def)
  have h2: "cursor_ok (two_lines_at 0 2)"
    by (simp add: cursor_ok_def two_lines_at_def)
  have h3: "cursor_ok (hello_at 0)"
    by (simp add: cursor_ok_def hello_at_def)
  have h4: "cursor_ok (hello_at 5)"
    by (simp add: cursor_ok_def hello_at_def)
  from cursor_motion [OF h1, of False None 1] cursor_motion [OF h2, of False None 1]
  have a: "handle_key KEY_LEFT False None (two_lines_at 1 0) = Inr (two_lines_at 0 2)"
    "handle_key KEY_RIGHT False None (two_lines_at 0 2) = Inr (two_lines_at 1 0)"
    "handle_key KEY_UP False None (two_lines_at 1 0) = Inr (two_lines_at 0 0)"
    "handle_key KEY_UP False None (two_lines_at 0 2) = Inr (two_lines_at 0 0)"
    "handle_key KEY_DOWN False None (two_lines_at 0 2) = Inr (two_lines_at 1 1)"
    "handle_key KEY_DOWN False None (two_lines_at 1 0) = Inr (two_lines_at 1 1)"
    by (simp_all add: two_lines_at_def)
  from cursor_motion [OF h3, of False None 1] cursor_motion [OF h4, of False None 1]
  have b: "handle_key KEY_LEFT False None (hello_at 0) = Inr (hello_at 0)"
    "handle_key KEY_RIGHT False None (hello_at 5) = Inr (hello_at 5)"
    by (simp_all add: hello_at_def)
  from cursor_motion [OF h4, of False None 1]
  have c: "\<exists>st5 st6.
         press_keys 1 [KEY_LEFT, KEY_LEFT, KEY_LEFT, KEY_LEFT, KEY_LEFT] (hello_at 5)
           = Inr (Some st5)
         \<and> buffer st5 = [''hello''] \<and> cursor_y st5 = 0 \<and> cursor_x st5 = 0
         \<and> handle_key KEY_LEFT False None st5 = Inr st5
         \<and> editor_step 1 KEY_LEFT False None st5 = Inr (Some st6)
         \<and> buffer st6 = [''hello''] \<and> cursor_y st6 = 0 \<and> cursor_x st6 = 0"
    by blast
  from h1 h2 h3 h4 a b c show ?thesis by blast
qed


section \<open>Loading and saving the buffer\<close>

lemma boundary_LF [simp]: "is_line_boundary (CHR 0x0A)"
  by (simp add: is_line_boundary_def)

lemma boundary_CR [simp]: "is_line_boundary (CHR 0x0D)"
  by (simp add: is_line_boundary_def)

lemma splitlines_from_concat:
  "concat (splitlines_from cur s) = cur @ filter (\<lambda>c. \<not> is_line_boundary c) s"
  by (induction cur s rule: splitlines_from.induct) simp_all

lemma splitlines_from_chars:
  assumes "\<forall>c \<in> set cur. \<not> is_line_boundary c"
  shows "\<forall>line \<in> set (splitlines_from cur s). \<forall>c \<in> set line. \<not> is_line_boundary c"
proof (intro ballI)
  fix line c
  assume "line \<in> set (splitlines_from cur s)" "c \<in> set line"
  then have "c \<in> set (concat (splitlines_from cur s))" by auto
  then have "c \<in> set cur \<or> c \<in> set (filter (\<lambda>c. \<not> is_line_boundary c) s)"
    by (simp add: splitlines_from_concat)
  with assms show "\<not> is_line_boundary c" by auto
qed

lemma universal_newlines_filter:
  "filter (\<lambda>c. \<not> is_line_boundary c) (universal_newlines s)
   = filter (\<lambda>c. \<not> is_line_boundary c) s"
  by (induction s rule: universal_newlines.induct) simp_all

lemma load_buffer_content:
  "file_content fs file_path = Inr content \<Longrightarrow>
   load_buffer fs file_path = Inr (load_from_text content)"
  by (simp add: load_buffer_def load_from_text_def read_text_def and_then_def)

text \<open>
  Claim C4, as stated, fails: the load cuts at every line boundary of \<open>str.splitlines\<close>, and
  the text-mode read has turned every carriage return into \<open>\n\<close> before. A content
  \<open>a\rb\<close> gives the two lines \<open>a\<close> and \<open>b\<close>, with no carriage return left, and a content
  with a vertical tab and no \<open>\n\<close> at all is cut in two as well.
\<close>

theorem load_from_text_drops_carriage_return:
  "load_from_text [CHR ''a'', CHR 0x0D, CHR ''b''] = [''a'', ''b'']
   \<and> load_from_text [CHR ''a'', CHR 0x0B, CHR ''b''] = [''a'', ''b'']"
  by code_simp













lemma sample_text_links:
  "findall sample_text = [''b'', ''c d'']
   \<and> load_from_text sample_text = [''see [[b]]'', ''and [[c d]]'']"
  by code_simp

text \<open>
  Without the hypothesis the names can change: a carriage return inside a link name comes
  back as \<open>\n\<close>.
\<close>

lemma round_trip_alters_carriage_return_in_link:
  "findall (serialize (load_from_text [CHR ''['', CHR ''['', CHR ''a'', CHR 0x0D, CHR ''b'', CHR '']'', CHR '']'']))
     = [[CHR ''a'', CHR 0x0A, CHR ''b'']]
   \<and> findall [CHR ''['', CHR ''['', CHR ''a'', CHR 0x0D, CHR ''b'', CHR '']'', CHR '']'']
     = [[CHR ''a'', CHR 0x0D, CHR ''b'']]"
  by code_simp

subsection \<open>Where the load cuts\<close>

lemma splitlines_from_Cons:
  "splitlines_from cur (c # s) =
     (if c = CHR 0x0D \<and> s \<noteq> [] \<and> hd s = CHR 0x0A then cur # splitlines_from [] (tl s)
      else if is_line_boundary c then cur # splitlines_from [] s
      else splitlines_from (cur @ [c]) s)"
  by (cases s) simp_all

lemma universal_newlines_no_CR: "CHR 0x0D \<notin> set (universal_newlines s)"
  by (induction s rule: universal_newlines.induct) auto

lemma universal_newlines_Nil_iff: "universal_newlines s = [] \<longleftrightarrow> s = []"
  by (cases s rule: universal_newlines.cases) auto

lemma splitlines_from_boundary:
  assumes "is_line_boundary c" "c \<noteq> CHR 0x0D"
  shows "splitlines_from cur (c # s) = cur # splitlines_from [] s"
  using assms by (simp add: splitlines_from_Cons)

lemma splitlines_from_plain:
  assumes "\<not> is_line_boundary c"
  shows "splitlines_from cur (c # s) = splitlines_from (cur @ [c]) s"
proof -
  from assms boundary_CR have "c \<noteq> CHR 0x0D" by blast
  with assms show ?thesis by (simp add: splitlines_from_Cons)
qed

lemma weave_load:
  "weave (splitlines_from cur (universal_newlines s)) (line_ends s) = cur @ s"
proof (induction s arbitrary: cur rule: universal_newlines.induct)
  case 1
  show ?case by simp
next
  case (2 c)
  consider "c = CHR 0x0D" | "c \<noteq> CHR 0x0D" "is_line_boundary c" | "\<not> is_line_boundary c"
    by auto
  then show ?case
  proof cases
    case 1
    then show ?thesis by (simp add: splitlines_from_boundary)
  next
    case 2
    then show ?thesis by (simp add: splitlines_from_boundary)
  next
    case 3
    with boundary_CR have "c \<noteq> CHR 0x0D" by blast
    with 3 show ?thesis by (simp add: splitlines_from_plain)
  qed
next
  case (3 c d cs)
  consider "c = CHR 0x0D" "d = CHR 0x0A" | "c = CHR 0x0D" "d \<noteq> CHR 0x0A"
    | "c \<noteq> CHR 0x0D" "is_line_boundary c" | "\<not> is_line_boundary c"
    by auto
  then show ?case
  proof cases
    case 1
    with "3.IH"(1) [of "[]"] show ?thesis
      by (simp add: splitlines_from_boundary)
  next
    case 2
    with "3.IH"(2) [of "[]"] show ?thesis
      by (simp add: splitlines_from_boundary)
  next
    case 3
    with "3.IH"(3) [of "[]"] show ?thesis
      by (simp add: splitlines_from_boundary)
  next
    case 4
    with boundary_CR have "c \<noteq> CHR 0x0D" by blast
    with 4 "3.IH"(3) [of "cur @ [c]"] show ?thesis
      by (simp add: splitlines_from_plain)
  qed
qed

lemma length_load:
  "length (splitlines_from cur (universal_newlines s))
   = length (line_ends s)
     + (if (s = [] \<and> cur = []) \<or> (s \<noteq> [] \<and> is_line_boundary (last s)) then 0 else 1)"
proof (induction s arbitrary: cur rule: universal_newlines.induct)
  case 1
  show ?case by simp
next
  case (2 c)
  consider "c = CHR 0x0D" | "c \<noteq> CHR 0x0D" "is_line_boundary c" | "\<not> is_line_boundary c"
    by auto
  then show ?case
  proof cases
    case 1
    then show ?thesis by (simp add: splitlines_from_boundary)
  next
    case 2
    then show ?thesis by (simp add: splitlines_from_boundary)
  next
    case 3
    with boundary_CR have "c \<noteq> CHR 0x0D" by blast
    with 3 show ?thesis by (simp add: splitlines_from_plain)
  qed
next
  case (3 c d cs)
  consider "c = CHR 0x0D" "d = CHR 0x0A" | "c = CHR 0x0D" "d \<noteq> CHR 0x0A"
    | "c \<noteq> CHR 0x0D" "is_line_boundary c" | "\<not> is_line_boundary c"
    by auto
  then show ?case
  proof cases
    case 1
    with "3.IH"(1) [of "[]"] show ?thesis
      by (auto simp: splitlines_from_boundary)
  next
    case 2
    with "3.IH"(2) [of "[]"] show ?thesis
      by (auto simp: splitlines_from_boundary)
  next
    case 3
    with "3.IH"(3) [of "[]"] show ?thesis
      by (auto simp: splitlines_from_boundary)
  next
    case 4
    with boundary_CR have "c \<noteq> CHR 0x0D" by blast
    with 4 "3.IH"(3) [of "cur @ [c]"] show ?thesis
      by (auto simp: splitlines_from_plain)
  qed
qed

lemma splitlines_from_Nil_iff: "splitlines_from cur s = [] \<longleftrightarrow> cur = [] \<and> s = []"
  by (induction cur s rule: splitlines_from.induct) auto

text \<open>
  Claim C4, amended. The load cuts the file content (of code points below 256) at every line
  boundary, that is at every \<open>\r\n\<close> pair and at every other single \<open>\n\<close>, \<open>\r\<close>, \<open>\v\<close>,
  \<open>\f\<close>, \<open>\x1c\<close>, \<open>\x1d\<close>, \<open>\x1e\<close> or \<open>\x85\<close>, not only at \<open>\n\<close>, and drops the boundaries: no
  carriage return or other boundary character is left inside a buffer line, putting the
  boundaries of the content back between the buffer lines gives the content again, and there
  is one line for every boundary and one more if the content does not end in a boundary. An
  empty content, for which the split gives no line, becomes a single empty line.
\<close>

theorem load_from_text_lines:
  "(content = [] \<longrightarrow> load_from_text content = [[]])
   \<and> (\<forall>line \<in> set (load_from_text content). \<forall>c \<in> set line. \<not> is_line_boundary c)
   \<and> (content \<noteq> [] \<longrightarrow>
        weave (load_from_text content) (line_ends content) = content
        \<and> length (load_from_text content)
            = length (line_ends content) + (if is_line_boundary (last content) then 0 else 1))"
proof -
  let ?b = "splitlines (universal_newlines content)"
  have e: "?b = [] \<longleftrightarrow> content = []"
    by (simp add: splitlines_def splitlines_from_Nil_iff universal_newlines_Nil_iff)
  have l1: "content = [] \<longrightarrow> load_from_text content = [[]]"
    by (simp add: load_from_text_def splitlines_def)
  have l2: "content \<noteq> [] \<Longrightarrow> load_from_text content = ?b"
    using e by (simp add: load_from_text_def Let_def)
  have chars: "\<forall>line \<in> set ?b. \<forall>c \<in> set line. \<not> is_line_boundary c"
    unfolding splitlines_def by (rule splitlines_from_chars) simp
  have chars': "\<forall>line \<in> set (load_from_text content). \<forall>c \<in> set line. \<not> is_line_boundary c"
  proof (cases "content = []")
    case True
    with l1 show ?thesis by simp
  next
    case False
    with l2 chars show ?thesis by simp
  qed
  have w: "weave ?b (line_ends content) = content"
    using weave_load [of "[]" content] by (simp add: splitlines_def)
  have n: "content \<noteq> [] \<Longrightarrow> length ?b
       = length (line_ends content) + (if is_line_boundary (last content) then 0 else 1)"
    using length_load [of "[]" content] by (simp add: splitlines_def)
  from l1 chars' l2 w n show ?thesis by simp
qed

theorem load_from_text_lines_witness:
  "load_from_text [] = [[]]
   \<and> load_from_text [CHR ''a'', CHR 0x0D, CHR 0x0A, CHR ''b'', CHR 0x0B, CHR ''c'', CHR 0x0D]
       = [''a'', ''b'', ''c'']
   \<and> line_ends [CHR ''a'', CHR 0x0D, CHR 0x0A, CHR ''b'', CHR 0x0B, CHR ''c'', CHR 0x0D]
       = [[CHR 0x0D, CHR 0x0A], [CHR 0x0B], [CHR 0x0D]]
   \<and> \<not> is_line_boundary (CHR ''a'') \<and> \<not> is_line_boundary (CHR ''b'')
   \<and> \<not> is_line_boundary (CHR ''c'')
   \<and> weave [''a'', ''b'', ''c''] [[CHR 0x0D, CHR 0x0A], [CHR 0x0B], [CHR 0x0D]]
       = [CHR ''a'', CHR 0x0D, CHR 0x0A, CHR ''b'', CHR 0x0B, CHR ''c'', CHR 0x0D]
   \<and> length (load_from_text
         [CHR ''a'', CHR 0x0D, CHR 0x0A, CHR ''b'', CHR 0x0B, CHR ''c'', CHR 0x0D]) = 3"
proof -
  let ?c = "[CHR ''a'', CHR 0x0D, CHR 0x0A, CHR ''b'', CHR 0x0B, CHR ''c'', CHR 0x0D]"
  have e: "load_from_text [] = [[]]"
    using load_from_text_lines [of "[]"] by blast
  have ne: "?c \<noteq> []" by simp
  have l: "load_from_text ?c = [''a'', ''b'', ''c'']" by code_simp
  have f: "line_ends ?c = [[CHR 0x0D, CHR 0x0A], [CHR 0x0B], [CHR 0x0D]]"
    by (simp add: is_line_boundary_def)
  note t = load_from_text_lines [of ?c]
  from t have "\<forall>line \<in> set (load_from_text ?c). \<forall>c \<in> set line. \<not> is_line_boundary c"
    by blast
  then have b: "\<not> is_line_boundary (CHR ''a'') \<and> \<not> is_line_boundary (CHR ''b'')
      \<and> \<not> is_line_boundary (CHR ''c'')"
    unfolding l by simp
  from t ne have "weave (load_from_text ?c) (line_ends ?c) = ?c" by blast
  then have w: "weave [''a'', ''b'', ''c''] [[CHR 0x0D, CHR 0x0A], [CHR 0x0B], [CHR 0x0D]] = ?c"
    unfolding l f .
  from e l f b w show ?thesis by simp
qed


section \<open>The force-directed layout\<close>

lemma randint_in_range:
  assumes "a \<le> b"
  shows "\<exists>v. randint a b r = Inr v \<and> a \<le> v \<and> v \<le> b"
proof -
  have "0 < b - a + 1" using assms by simp
  then have "0 \<le> r mod (b - a + 1)" "r mod (b - a + 1) < b - a + 1"
    by (rule pos_mod_sign, rule pos_mod_bound)
  then show ?thesis
    using assms by (simp add: randint_def)
qed

lemma initial_positions_in_region:
  assumes "3 \<le> width" "4 \<le> height"
  shows "\<exists>ps. initial_positions rnd i width height ns = Inr ps \<and> map fst ps = ns
              \<and> (\<forall>(n, p) \<in> set ps. in_region width height p)"
proof (induction ns arbitrary: i)
  case Nil
  show ?case by simp
next
  case (Cons n ns)
  from assms obtain px where px: "randint 1 (width - 2) (rnd i) = Inr px"
    "1 \<le> px" "px \<le> width - 2"
    using randint_in_range [of 1 "width - 2" "rnd i"] by auto
  from assms obtain py where py: "randint 1 (height - 3) (rnd (i + 1)) = Inr py"
    "1 \<le> py" "py \<le> height - 3"
    using randint_in_range [of 1 "height - 3" "rnd (i + 1)"] by auto
  from Cons.IH [of "i + 2"] obtain ps where
    ps: "initial_positions rnd (i + 2) width height ns = Inr ps" "map fst ps = ns"
    "\<forall>(n, p) \<in> set ps. in_region width height p"
    by blast
  have "in_region width height (real_of_int px, real_of_int py)"
    using px(2,3) py(2,3) by (simp add: in_region_def)
  with px(1) py(1) ps show ?case by simp
qed

lemma move_in_region:
  assumes "3 \<le> width" "4 \<le> height"
  shows "in_region width height (move width height d p)"
  using assms by (simp add: in_region_def move_def Let_def)

lemma map_entry_set:
  "(n, p) \<in> set (AList.map_entry k f al) \<Longrightarrow> (n, p) \<in> set al \<or> (\<exists>q. p = f q)"
  by (induction al) (auto split: if_splits)

lemma apply_displacements_keys:
  "map fst (apply_displacements disp width height vs ps) = map fst ps"
  by (induction vs arbitrary: ps) (simp_all add: map_fst_map_entry)

lemma apply_displacements_in_region:
  assumes "3 \<le> width" "4 \<le> height"
  shows "\<forall>(n, p) \<in> set ps. in_region width height p \<Longrightarrow>
         \<forall>(n, p) \<in> set (apply_displacements disp width height vs ps). in_region width height p"
proof (induction vs arbitrary: ps)
  case Nil
  then show ?case by simp
next
  case (Cons v vs)
  have "\<forall>(n, p) \<in> set (AList.map_entry v (move width height (disp v)) ps).
          in_region width height p"
  proof (clarify)
    fix n a b
    assume "(n, a, b) \<in> set (AList.map_entry v (move width height (disp v)) ps)"
    then have "(n, a, b) \<in> set ps \<or> (\<exists>q. (a, b) = move width height (disp v) q)"
      by (rule map_entry_set)
    then show "in_region width height (a, b)"
    proof
      assume "(n, a, b) \<in> set ps"
      with Cons.prems show ?thesis by auto
    next
      assume "\<exists>q. (a, b) = move width height (disp v) q"
      then obtain q where "(a, b) = move width height (disp v) q" ..
      then show ?thesis by (simp add: move_in_region [OF assms])
    qed
  qed
  from Cons.IH [OF this] show ?case by simp
qed

lemma layout_round_keys:
  "map fst (layout_round k width height graph ps) = map fst ps"
  by (simp add: layout_round_def Let_def apply_displacements_keys)

lemma layout_round_in_region:
  assumes "3 \<le> width" "4 \<le> height" "\<forall>(n, p) \<in> set ps. in_region width height p"
  shows "\<forall>(n, p) \<in> set (layout_round k width height graph ps). in_region width height p"
  unfolding layout_round_def Let_def
  by (rule apply_displacements_in_region [OF assms])

lemma layout_rounds_keys:
  "map fst (layout_rounds n k width height graph ps) = map fst ps"
  by (induction n arbitrary: ps) (simp_all add: layout_round_keys)

lemma layout_rounds_in_region:
  assumes "3 \<le> width" "4 \<le> height"
  shows "\<forall>(n, p) \<in> set ps. in_region width height p \<Longrightarrow>
         \<forall>(n, p) \<in> set (layout_rounds m k width height graph ps). in_region width height p"
proof (induction m arbitrary: ps)
  case 0
  then show ?case by simp
next
  case (Suc m)
  from Suc.IH [OF layout_round_in_region [OF assms Suc.prems]] show ?case by simp
qed

lemma final_positions_in_region:
  assumes "3 \<le> width" "4 \<le> height"
  shows "\<exists>ps. final_positions rnd graph width height iterations = Inr ps
              \<and> map fst ps = map fst graph
              \<and> (\<forall>(n, p) \<in> set ps. in_region width height p)"
proof -
  from initial_positions_in_region [OF assms, of rnd 0 "map fst graph"] obtain ps where
    ps: "initial_positions rnd 0 width height (map fst graph) = Inr ps"
    "map fst ps = map fst graph" "\<forall>(n, p) \<in> set ps. in_region width height p"
    by blast
  have "(0::real) \<le> real_of_int width" "(0::real) \<le> real_of_int height"
    using assms by simp_all
  then have "(0::real) \<le> real_of_int (width * height) / real (length graph + 1)"
    by (intro divide_nonneg_nonneg) simp_all
  then have k: "py_sqrt (real_of_int (width * height) / real (length graph + 1))
      = Inr (sqrt (real_of_int (width * height) / real (length graph + 1)))"
    by (simp add: py_sqrt_def)
  show ?thesis
    unfolding final_positions_def ps(1) k
    using ps(2) layout_rounds_in_region [OF assms ps(3)]
    by (simp add: layout_rounds_keys)
qed

lemma py_int_in_range:
  assumes "1 \<le> v" "v \<le> real_of_int hi"
  shows "1 \<le> py_int v \<and> py_int v \<le> hi"
proof -
  from assms(1) have "py_int v = \<lfloor>v\<rfloor>" by (simp add: py_int_def)
  moreover have "1 \<le> \<lfloor>v\<rfloor>" using assms(1) by linarith
  moreover have "\<lfloor>v\<rfloor> \<le> hi" using assms(2) by linarith
  ultimately show ?thesis by simp
qed

text \<open>
  Claim C1. For every graph, every region of width at least 3 and height at least 4, every
  random source and every number of iterations (the default 200 among them), \<open>force_layout\<close>
  returns, without raising, one position for every note of the graph, in the order of the
  graph, and each integer position \<open>(x, y)\<close> lies in \<open>[1, width-2] \<times> [1, height-3]\<close>. For a
  graph without notes the result is empty, for a graph of one note it has exactly one entry.
\<close>

theorem force_layout_in_region:
  assumes "3 \<le> width" "4 \<le> height"
  shows "\<exists>result. force_layout rnd graph width height iterations = Inr result
           \<and> map fst result = map fst graph
           \<and> (\<forall>(note, px, py) \<in> set result.
                 1 \<le> px \<and> px \<le> width - 2 \<and> 1 \<le> py \<and> py \<le> height - 3)
           \<and> (graph = [] \<longrightarrow> result = [])
           \<and> (length graph = 1 \<longrightarrow> length result = 1)"
proof -
  from final_positions_in_region [OF assms, of rnd graph iterations] obtain ps where
    ps: "final_positions rnd graph width height iterations = Inr ps"
    "map fst ps = map fst graph" "\<forall>(n, p) \<in> set ps. in_region width height p"
    by blast
  let ?result = "map (\<lambda>(note, (px, py)). (note, (py_int px, py_int py))) ps"
  have r: "force_layout rnd graph width height iterations = Inr ?result"
    by (simp add: force_layout_def ps(1))
  have keys: "map fst ?result = map fst graph"
    using ps(2) by (simp add: case_prod_unfold comp_def)
  have bounds: "\<forall>(note, px, py) \<in> set ?result.
      1 \<le> px \<and> px \<le> width - 2 \<and> 1 \<le> py \<and> py \<le> height - 3"
  proof (clarify)
    fix nm rx ry
    assume "(nm, rx, ry) \<in> set ?result"
    then obtain px py where p: "(nm, px, py) \<in> set ps" "rx = py_int px" "ry = py_int py"
      by auto
    with ps(3) have "in_region width height (px, py)" by auto
    then show "1 \<le> rx \<and> rx \<le> width - 2 \<and> 1 \<le> ry \<and> ry \<le> height - 3"
      using py_int_in_range [of px "width - 2"] py_int_in_range [of py "height - 3"] p(2,3)
      by (simp add: in_region_def)
  qed
  have len: "length ?result = length graph"
    using arg_cong [OF keys, of length] by simp
  from r keys bounds len show ?thesis by auto
qed

theorem force_layout_in_region_witness:
  "(\<exists>result. force_layout int linked_notes 80 24 default_iterations = Inr result
       \<and> map fst result = map fst linked_notes
       \<and> (\<forall>(note, px, py) \<in> set result. 1 \<le> px \<and> px \<le> 80 - 2 \<and> 1 \<le> py \<and> py \<le> 24 - 3))
   \<and> force_layout int [] 80 24 default_iterations = Inr []
   \<and> (\<exists>result. force_layout int [(''A'', [])] 80 24 default_iterations = Inr result
         \<and> length result = 1)"
proof -
  have h1: "(3::int) \<le> 80" and h2: "(4::int) \<le> 24" by simp_all
  from force_layout_in_region [OF h1 h2, of int linked_notes default_iterations]
  have a: "\<exists>result. force_layout int linked_notes 80 24 default_iterations = Inr result
       \<and> map fst result = map fst linked_notes
       \<and> (\<forall>(note, px, py) \<in> set result. 1 \<le> px \<and> px \<le> 80 - 2 \<and> 1 \<le> py \<and> py \<le> 24 - 3)"
    by blast
  from force_layout_in_region [OF h1 h2, of int "[]" default_iterations]
  have b: "force_layout int [] 80 24 default_iterations = Inr []"
    by auto
  from force_layout_in_region [OF h1 h2, of int "[(''A'', [])]" default_iterations]
  have c: "\<exists>result. force_layout int [(''A'', [])] 80 24 default_iterations = Inr result
         \<and> length result = 1"
    by auto
  from a b c show ?thesis by blast
qed
subsection \<open>A run that ends between two integers\<close>

lemma sqrt2_bounds: "1 / sqrt 2 < (1::real)" "(1::real) / 2 \<le> 1 / sqrt 2" "0 < 1 / sqrt (2::real)"
proof -
  have "(1::real) < sqrt 2" by simp
  then show "1 / sqrt 2 < (1::real)" by simp
  have "sqrt 2 \<le> (2::real)" by (rule real_le_lsqrt) simp_all
  then show "(1::real) / 2 \<le> 1 / sqrt 2"
    by (intro divide_left_mono) simp_all
  show "0 < 1 / sqrt (2::real)" by simp
qed

lemma unit_step_diagonal:
  assumes "0 < c"
  shows "c / sqrt (c * c + c * c) = 1 / sqrt 2" "- c / sqrt (- c * - c + - c * - c) = - (1 / sqrt 2)"
    "0 < sqrt (c * c + c * c)"
proof -
  have "sqrt (c * c + c * c) = sqrt (2 * c\<^sup>2)"
    by (simp add: power2_eq_square)
  also have "\<dots> = sqrt 2 * sqrt (c\<^sup>2)"
    by (rule real_sqrt_mult)
  also have "\<dots> = sqrt 2 * c"
    using assms by simp
  finally have s: "sqrt (c * c + c * c) = sqrt 2 * c" .
  have n: "- c * - c + - c * - c = c * c + c * c" by simp
  show "c / sqrt (c * c + c * c) = 1 / sqrt 2"
    unfolding s using assms by simp
  show "- c / sqrt (- c * - c + - c * - c) = - (1 / sqrt 2)"
    unfolding n s using assms by simp
  show "0 < sqrt (c * c + c * c)"
    unfolding s using assms by simp
qed

lemma move_unit_diagonal:
  fixes t :: real
  assumes "0 < t" "t < 1"
    and "0 < sqrt (c * c + c * c)" "c / sqrt (c * c + c * c) = t"
    and "0 < sqrt (- c * - c + - c * - c)" "- c / sqrt (- c * - c + - c * - c) = - t"
  shows "move 10 10 (c, c) (5, 5) = (5 + t, 5 + t)"
    and "move 10 10 (- c, - c) (3, 3) = (3 - t, 3 - t)"
  using assms by (simp_all add: move_def Let_def min_def max_def)

lemma move_diagonal:
  assumes "0 < c"
  shows "move 10 10 (c, c) (5, 5) = (5 + 1 / sqrt 2, 5 + 1 / sqrt 2)"
    and "move 10 10 (- c, - c) (3, 3) = (3 - 1 / sqrt 2, 3 - 1 / sqrt 2)"
proof -
  note u = unit_step_diagonal [OF assms]
  have n: "0 < sqrt (- c * - c + - c * - c)" using u(3) by simp
  show "move 10 10 (c, c) (5, 5) = (5 + 1 / sqrt 2, 5 + 1 / sqrt 2)"
    by (rule move_unit_diagonal(1) [OF sqrt2_bounds(3,1) u(3) u(1) n u(2)])
  show "move 10 10 (- c, - c) (3, 3) = (3 - 1 / sqrt 2, 3 - 1 / sqrt 2)"
    by (rule move_unit_diagonal(2) [OF sqrt2_bounds(3,1) u(3) u(1) n u(2)])
qed

lemma truncation_between:
  fixes t :: real
  assumes "0 < t" "1 / 2 \<le> t" "t < 1"
  shows "py_int (5 + t) = 5" "py_int (3 - t) = 2" "round (5 + t) = 6"
proof -
  have "\<lfloor>5 + t\<rfloor> = 5" using assms by (intro floor_unique) simp_all
  then show "py_int (5 + t) = 5" using assms by (simp add: py_int_def)
  have "\<lfloor>3 - t\<rfloor> = 2" using assms by (intro floor_unique) simp_all
  then show "py_int (3 - t) = 2" using assms by (simp add: py_int_def)
  have "\<lfloor>5 + t + 1 / 2\<rfloor> = 6" using assms by (intro floor_unique) simp_all
  then show "round (5 + t) = 6" by (simp add: round_def)
qed

lemma repulsion_diagonal:
  assumes "0 < k"
  shows "\<exists>c > 0. repulsion k diagonal_start ''a'' ''b'' = (- c, - c)
               \<and> repulsion k diagonal_start ''b'' ''a'' = (c, c)"
proof -
  define dist :: real where "dist = sqrt 8 + 0.01"
  define force where "force = (if dist < 2.0 then 5.0 * (2.0 - dist) else 0.02 * (k * k) / dist)"
  have d: "0 < dist" unfolding dist_def by (simp add: add_pos_pos)
  have f: "0 < force"
    using d assms by (simp add: force_def)
  have a: "repulsion k diagonal_start ''a'' ''b'' = ((- 2 / dist) * force, (- 2 / dist) * force)"
    by (simp add: repulsion_def position_of_def diagonal_start_def Let_def dist_def force_def)
  have b: "repulsion k diagonal_start ''b'' ''a'' = ((2 / dist) * force, (2 / dist) * force)"
    by (simp add: repulsion_def position_of_def diagonal_start_def Let_def dist_def force_def)
  have "0 < (2 / dist) * force" using d f by simp
  with a b show ?thesis by (intro exI [of _ "(2 / dist) * force"]) simp
qed

lemma layout_round_diagonal:
  assumes "0 < k"
  shows "layout_round k 10 10 two_notes diagonal_start
         = [(''a'', (3 - 1 / sqrt 2, 3 - 1 / sqrt 2)), (''b'', (5 + 1 / sqrt 2, 5 + 1 / sqrt 2))]"
proof -
  from repulsion_diagonal [OF assms] obtain c where c: "0 < c"
    "repulsion k diagonal_start ''a'' ''b'' = (- c, - c)"
    "repulsion k diagonal_start ''b'' ''a'' = (c, c)"
    by blast
  have disp: "attract_all k diagonal_start (map fst two_notes) two_notes
          (repel_all k diagonal_start (map fst two_notes) (map fst two_notes) (\<lambda>note. (0, 0)))
        = (\<lambda>note. (0, 0)) (''a'' := (- c, - c), ''b'' := (c, c))"
    by (simp add: two_notes_def add_disp_def c(2,3))
  have "layout_round k 10 10 two_notes diagonal_start
        = [(''a'', move 10 10 (- c, - c) (3, 3)), (''b'', move 10 10 (c, c) (5, 5))]"
    unfolding layout_round_def Let_def disp
    by (simp add: two_notes_def diagonal_start_def)
  then show ?thesis by (simp add: move_diagonal [OF c(1)])
qed

lemma final_positions_diagonal:
  "final_positions diagonal_draws two_notes 10 10 1
   = Inr [(''a'', (3 - 1 / sqrt 2, 3 - 1 / sqrt 2)), (''b'', (5 + 1 / sqrt 2, 5 + 1 / sqrt 2))]"
proof -
  have i: "initial_positions diagonal_draws 0 10 10 (map fst two_notes) = Inr diagonal_start"
    by (simp add: two_notes_def diagonal_draws_def randint_def diagonal_start_def)
  have k: "py_sqrt (real_of_int (10 * 10) / real (length two_notes + 1)) = Inr (sqrt (100 / 3))"
    by (simp add: py_sqrt_def two_notes_def)
  have "(0::real) < sqrt (100 / 3)" by simp
  from layout_round_diagonal [OF this] show ?thesis
    unfolding final_positions_def i k by simp
qed

text \<open>
  Claim C3. After the final simulation iteration the coordinates are to be rounded to the
  nearest integer; the comment above the last line of \<open>force_layout\<close> says that it rounds the
  coordinates. The line converts with \<open>int\<close>, which cuts the fraction off. Two notes at
  \<open>(3, 3)\<close> and \<open>(5, 5)\<close> push each other one unit step along the diagonal; the second ends
  at \<open>5 + 1/\<surd>2\<close>, about 5.707, in both coordinates, whose nearest integer is 6, and is
  returned at \<open>(5, 5)\<close>.
\<close>

theorem force_layout_rounds_down:
  "final_positions diagonal_draws two_notes 10 10 1
     = Inr [(''a'', (3 - 1 / sqrt 2, 3 - 1 / sqrt 2)), (''b'', (5 + 1 / sqrt 2, 5 + 1 / sqrt 2))]
   \<and> force_layout diagonal_draws two_notes 10 10 1 = Inr [(''a'', (2, 2)), (''b'', (5, 5))]
   \<and> round (5 + 1 / sqrt 2 :: real) = 6"
proof -
  note t = truncation_between [OF sqrt2_bounds(3,2,1)]
  show ?thesis
    unfolding final_positions_diagonal force_layout_def
    by (simp only: and_then_Inr list.map prod.case t)
qed


end
